theory Spec2Isabelle
  imports Main "HOL-Library.Word"
begin

unbundle bit_operations_syntax

section \<open>Input events\<close>

text \<open>
  The program reads records of type \<^verbatim>\<open>struct input_event\<close> from its input devices.
  \<^verbatim>\<open>parse_events\<close> looks at three fields: \<^verbatim>\<open>type\<close> and \<^verbatim>\<open>code\<close> (unsigned 16 bit) and
  \<^verbatim>\<open>value\<close> (signed 32 bit, read here through \<open>sint\<close> where the sign matters).
\<close>

type_synonym byte = "8 word"

record input_event =
  ev_type :: "16 word"
  ev_code :: "16 word"
  ev_value :: "32 word"

text \<open>
  The event types, codes and key codes that \<^verbatim>\<open>parse_events\<close> names, with the values the
  header \<^verbatim>\<open>linux/input.h\<close> gives them.
\<close>

abbreviation (input) EV_SYN :: "16 word" where "EV_SYN \<equiv> 0x00"
abbreviation (input) EV_KEY :: "16 word" where "EV_KEY \<equiv> 0x01"
abbreviation (input) EV_REL :: "16 word" where "EV_REL \<equiv> 0x02"
abbreviation (input) ABS_X :: "16 word" where "ABS_X \<equiv> 0x00"
abbreviation (input) ABS_Y :: "16 word" where "ABS_Y \<equiv> 0x01"
abbreviation (input) ABS_Z :: "16 word" where "ABS_Z \<equiv> 0x02"
abbreviation (input) REL_WHEEL :: "16 word" where "REL_WHEEL \<equiv> 0x08"
abbreviation (input) BTN_LEFT :: "16 word" where "BTN_LEFT \<equiv> 0x110"
abbreviation (input) BTN_RIGHT :: "16 word" where "BTN_RIGHT \<equiv> 0x111"
abbreviation (input) BTN_MIDDLE :: "16 word" where "BTN_MIDDLE \<equiv> 0x112"
abbreviation (input) KEY_ESC :: "16 word" where "KEY_ESC \<equiv> 1"
abbreviation (input) KEY_1 :: "16 word" where "KEY_1 \<equiv> 2"
abbreviation (input) KEY_2 :: "16 word" where "KEY_2 \<equiv> 3"
abbreviation (input) KEY_3 :: "16 word" where "KEY_3 \<equiv> 4"
abbreviation (input) KEY_4 :: "16 word" where "KEY_4 \<equiv> 5"
abbreviation (input) KEY_5 :: "16 word" where "KEY_5 \<equiv> 6"
abbreviation (input) KEY_6 :: "16 word" where "KEY_6 \<equiv> 7"
abbreviation (input) KEY_7 :: "16 word" where "KEY_7 \<equiv> 8"
abbreviation (input) KEY_8 :: "16 word" where "KEY_8 \<equiv> 9"
abbreviation (input) KEY_9 :: "16 word" where "KEY_9 \<equiv> 10"
abbreviation (input) KEY_0 :: "16 word" where "KEY_0 \<equiv> 11"
abbreviation (input) KEY_MINUS :: "16 word" where "KEY_MINUS \<equiv> 12"
abbreviation (input) KEY_EQUAL :: "16 word" where "KEY_EQUAL \<equiv> 13"
abbreviation (input) KEY_BACKSPACE :: "16 word" where "KEY_BACKSPACE \<equiv> 14"
abbreviation (input) KEY_TAB :: "16 word" where "KEY_TAB \<equiv> 15"
abbreviation (input) KEY_Q :: "16 word" where "KEY_Q \<equiv> 16"
abbreviation (input) KEY_W :: "16 word" where "KEY_W \<equiv> 17"
abbreviation (input) KEY_E :: "16 word" where "KEY_E \<equiv> 18"
abbreviation (input) KEY_R :: "16 word" where "KEY_R \<equiv> 19"
abbreviation (input) KEY_T :: "16 word" where "KEY_T \<equiv> 20"
abbreviation (input) KEY_Y :: "16 word" where "KEY_Y \<equiv> 21"
abbreviation (input) KEY_U :: "16 word" where "KEY_U \<equiv> 22"
abbreviation (input) KEY_I :: "16 word" where "KEY_I \<equiv> 23"
abbreviation (input) KEY_O :: "16 word" where "KEY_O \<equiv> 24"
abbreviation (input) KEY_P :: "16 word" where "KEY_P \<equiv> 25"
abbreviation (input) KEY_LEFTBRACE :: "16 word" where "KEY_LEFTBRACE \<equiv> 26"
abbreviation (input) KEY_RIGHTBRACE :: "16 word" where "KEY_RIGHTBRACE \<equiv> 27"
abbreviation (input) KEY_ENTER :: "16 word" where "KEY_ENTER \<equiv> 28"
abbreviation (input) KEY_LEFTCTRL :: "16 word" where "KEY_LEFTCTRL \<equiv> 29"
abbreviation (input) KEY_A :: "16 word" where "KEY_A \<equiv> 30"
abbreviation (input) KEY_S :: "16 word" where "KEY_S \<equiv> 31"
abbreviation (input) KEY_D :: "16 word" where "KEY_D \<equiv> 32"
abbreviation (input) KEY_F :: "16 word" where "KEY_F \<equiv> 33"
abbreviation (input) KEY_G :: "16 word" where "KEY_G \<equiv> 34"
abbreviation (input) KEY_H :: "16 word" where "KEY_H \<equiv> 35"
abbreviation (input) KEY_J :: "16 word" where "KEY_J \<equiv> 36"
abbreviation (input) KEY_K :: "16 word" where "KEY_K \<equiv> 37"
abbreviation (input) KEY_L :: "16 word" where "KEY_L \<equiv> 38"
abbreviation (input) KEY_SEMICOLON :: "16 word" where "KEY_SEMICOLON \<equiv> 39"
abbreviation (input) KEY_APOSTROPHE :: "16 word" where "KEY_APOSTROPHE \<equiv> 40"
abbreviation (input) KEY_GRAVE :: "16 word" where "KEY_GRAVE \<equiv> 41"
abbreviation (input) KEY_LEFTSHIFT :: "16 word" where "KEY_LEFTSHIFT \<equiv> 42"
abbreviation (input) KEY_BACKSLASH :: "16 word" where "KEY_BACKSLASH \<equiv> 43"
abbreviation (input) KEY_Z :: "16 word" where "KEY_Z \<equiv> 44"
abbreviation (input) KEY_X :: "16 word" where "KEY_X \<equiv> 45"
abbreviation (input) KEY_C :: "16 word" where "KEY_C \<equiv> 46"
abbreviation (input) KEY_V :: "16 word" where "KEY_V \<equiv> 47"
abbreviation (input) KEY_B :: "16 word" where "KEY_B \<equiv> 48"
abbreviation (input) KEY_N :: "16 word" where "KEY_N \<equiv> 49"
abbreviation (input) KEY_M :: "16 word" where "KEY_M \<equiv> 50"
abbreviation (input) KEY_COMMA :: "16 word" where "KEY_COMMA \<equiv> 51"
abbreviation (input) KEY_DOT :: "16 word" where "KEY_DOT \<equiv> 52"
abbreviation (input) KEY_SLASH :: "16 word" where "KEY_SLASH \<equiv> 53"
abbreviation (input) KEY_RIGHTSHIFT :: "16 word" where "KEY_RIGHTSHIFT \<equiv> 54"
abbreviation (input) KEY_KPASTERISK :: "16 word" where "KEY_KPASTERISK \<equiv> 55"
abbreviation (input) KEY_LEFTALT :: "16 word" where "KEY_LEFTALT \<equiv> 56"
abbreviation (input) KEY_SPACE :: "16 word" where "KEY_SPACE \<equiv> 57"
abbreviation (input) KEY_CAPSLOCK :: "16 word" where "KEY_CAPSLOCK \<equiv> 58"
abbreviation (input) KEY_F1 :: "16 word" where "KEY_F1 \<equiv> 59"
abbreviation (input) KEY_F2 :: "16 word" where "KEY_F2 \<equiv> 60"
abbreviation (input) KEY_F3 :: "16 word" where "KEY_F3 \<equiv> 61"
abbreviation (input) KEY_F4 :: "16 word" where "KEY_F4 \<equiv> 62"
abbreviation (input) KEY_F5 :: "16 word" where "KEY_F5 \<equiv> 63"
abbreviation (input) KEY_F6 :: "16 word" where "KEY_F6 \<equiv> 64"
abbreviation (input) KEY_F7 :: "16 word" where "KEY_F7 \<equiv> 65"
abbreviation (input) KEY_F8 :: "16 word" where "KEY_F8 \<equiv> 66"
abbreviation (input) KEY_F9 :: "16 word" where "KEY_F9 \<equiv> 67"
abbreviation (input) KEY_F10 :: "16 word" where "KEY_F10 \<equiv> 68"
abbreviation (input) KEY_NUMLOCK :: "16 word" where "KEY_NUMLOCK \<equiv> 69"
abbreviation (input) KEY_SCROLLLOCK :: "16 word" where "KEY_SCROLLLOCK \<equiv> 70"
abbreviation (input) KEY_KP7 :: "16 word" where "KEY_KP7 \<equiv> 71"
abbreviation (input) KEY_KP8 :: "16 word" where "KEY_KP8 \<equiv> 72"
abbreviation (input) KEY_KP9 :: "16 word" where "KEY_KP9 \<equiv> 73"
abbreviation (input) KEY_KPMINUS :: "16 word" where "KEY_KPMINUS \<equiv> 74"
abbreviation (input) KEY_KP4 :: "16 word" where "KEY_KP4 \<equiv> 75"
abbreviation (input) KEY_KP5 :: "16 word" where "KEY_KP5 \<equiv> 76"
abbreviation (input) KEY_KP6 :: "16 word" where "KEY_KP6 \<equiv> 77"
abbreviation (input) KEY_KPPLUS :: "16 word" where "KEY_KPPLUS \<equiv> 78"
abbreviation (input) KEY_KP1 :: "16 word" where "KEY_KP1 \<equiv> 79"
abbreviation (input) KEY_KP2 :: "16 word" where "KEY_KP2 \<equiv> 80"
abbreviation (input) KEY_KP3 :: "16 word" where "KEY_KP3 \<equiv> 81"
abbreviation (input) KEY_KP0 :: "16 word" where "KEY_KP0 \<equiv> 82"
abbreviation (input) KEY_KPDOT :: "16 word" where "KEY_KPDOT \<equiv> 83"
abbreviation (input) KEY_102ND :: "16 word" where "KEY_102ND \<equiv> 86"
abbreviation (input) KEY_F11 :: "16 word" where "KEY_F11 \<equiv> 87"
abbreviation (input) KEY_F12 :: "16 word" where "KEY_F12 \<equiv> 88"
abbreviation (input) KEY_KPENTER :: "16 word" where "KEY_KPENTER \<equiv> 96"
abbreviation (input) KEY_RIGHTCTRL :: "16 word" where "KEY_RIGHTCTRL \<equiv> 97"
abbreviation (input) KEY_KPSLASH :: "16 word" where "KEY_KPSLASH \<equiv> 98"
abbreviation (input) KEY_SYSRQ :: "16 word" where "KEY_SYSRQ \<equiv> 99"
abbreviation (input) KEY_RIGHTALT :: "16 word" where "KEY_RIGHTALT \<equiv> 100"
abbreviation (input) KEY_HOME :: "16 word" where "KEY_HOME \<equiv> 102"
abbreviation (input) KEY_UP :: "16 word" where "KEY_UP \<equiv> 103"
abbreviation (input) KEY_PAGEUP :: "16 word" where "KEY_PAGEUP \<equiv> 104"
abbreviation (input) KEY_LEFT :: "16 word" where "KEY_LEFT \<equiv> 105"
abbreviation (input) KEY_RIGHT :: "16 word" where "KEY_RIGHT \<equiv> 106"
abbreviation (input) KEY_END :: "16 word" where "KEY_END \<equiv> 107"
abbreviation (input) KEY_DOWN :: "16 word" where "KEY_DOWN \<equiv> 108"
abbreviation (input) KEY_PAGEDOWN :: "16 word" where "KEY_PAGEDOWN \<equiv> 109"
abbreviation (input) KEY_INSERT :: "16 word" where "KEY_INSERT \<equiv> 110"
abbreviation (input) KEY_DELETE :: "16 word" where "KEY_DELETE \<equiv> 111"
abbreviation (input) KEY_PAUSE :: "16 word" where "KEY_PAUSE \<equiv> 119"
abbreviation (input) KEY_LEFTMETA :: "16 word" where "KEY_LEFTMETA \<equiv> 125"
abbreviation (input) KEY_RIGHTMETA :: "16 word" where "KEY_RIGHTMETA \<equiv> 126"

abbreviation (input) REPORTID_MOUSE :: byte where "REPORTID_MOUSE \<equiv> 1"
abbreviation (input) REPORTID_KEYBD :: byte where "REPORTID_KEYBD \<equiv> 2"

text \<open>\<^verbatim>\<open>sizeof(struct input_event)\<close>: 24 on a 64 bit machine.\<close>

abbreviation (input) sizeof_input_event :: int where "sizeof_input_event \<equiv> 24"

section \<open>The key table\<close>

text \<open>
  \<^verbatim>\<open>unsigned char chars[100][6][2]\<close>: for each key index and each of the six neo layers the
  pair (modifier byte, key usage) to send. A usage of 0 means that the key has no
  character on that layer.
\<close>

definition chars :: "(byte \<times> byte) list list" where
  "chars = [
    [(0x00, 0x00), (0x00, 0x00), (0x00, 0x00), (0x00, 0x00), (0x00, 0x00), (0x00, 0x00)],
    [(0x00, 0x00), (0x00, 0x00), (0x00, 0x00), (0x00, 0x00), (0x00, 0x00), (0x00, 0x00)],
    [(0x00, 0x00), (0x00, 0x00), (0x00, 0x00), (0x00, 0x00), (0x00, 0x00), (0x00, 0x00)],
    [(0x00, 0x00), (0x00, 0x00), (0x00, 0x00), (0x00, 0x00), (0x00, 0x00), (0x00, 0x00)],
    [(0x00, 0x18), (0x02, 0x18), (0x06, 0x24), (0x00, 0x4A), (0x00, 0x00), (0x00, 0x00)],
    [(0x00, 0x1C), (0x02, 0x1C), (0x00, 0x00), (0x00, 0x00), (0x00, 0x00), (0x00, 0x00)],
    [(0x00, 0x34), (0x02, 0x34), (0x04, 0x24), (0x00, 0x49), (0x00, 0x00), (0x00, 0x00)],
    [(0x00, 0x04), (0x02, 0x04), (0x04, 0x25), (0x00, 0x51), (0x00, 0x00), (0x00, 0x00)],
    [(0x00, 0x0F), (0x02, 0x0F), (0x04, 0x22), (0x00, 0x52), (0x00, 0x00), (0x00, 0x00)],
    [(0x00, 0x08), (0x02, 0x08), (0x04, 0x26), (0x00, 0x4F), (0x00, 0x00), (0x00, 0x00)],
    [(0x00, 0x12), (0x02, 0x12), (0x02, 0x30), (0x00, 0x4D), (0x00, 0x00), (0x00, 0x00)],
    [(0x00, 0x16), (0x02, 0x16), (0x02, 0x2D), (0x04, 0x2D), (0x00, 0x00), (0x00, 0x00)],
    [(0x00, 0x0A), (0x02, 0x0A), (0x02, 0x35), (0x00, 0x25), (0x00, 0x00), (0x00, 0x00)],
    [(0x00, 0x11), (0x02, 0x11), (0x02, 0x25), (0x00, 0x21), (0x00, 0x00), (0x00, 0x00)],
    [(0x00, 0x15), (0x02, 0x15), (0x02, 0x26), (0x00, 0x22), (0x00, 0x00), (0x00, 0x00)],
    [(0x00, 0x17), (0x02, 0x17), (0x00, 0x38), (0x00, 0x23), (0x00, 0x00), (0x00, 0x00)],
    [(0x00, 0x10), (0x02, 0x10), (0x02, 0x22), (0x00, 0x1E), (0x00, 0x00), (0x00, 0x00)],
    [(0x00, 0x05), (0x02, 0x05), (0x00, 0x30), (0x02, 0x37), (0x00, 0x00), (0x00, 0x00)],
    [(0x00, 0x09), (0x02, 0x09), (0x02, 0x27), (0x00, 0x26), (0x00, 0x00), (0x00, 0x00)],
    [(0x00, 0x14), (0x02, 0x14), (0x02, 0x23), (0x00, 0x30), (0x00, 0x00), (0x00, 0x00)],
    [(0x00, 0x1B), (0x02, 0x1B), (0x04, 0x37), (0x00, 0x4B), (0x00, 0x00), (0x00, 0x00)],
    [(0x00, 0x06), (0x02, 0x06), (0x04, 0x23), (0x00, 0x4C), (0x00, 0x00), (0x00, 0x00)],
    [(0x00, 0x0C), (0x02, 0x0C), (0x02, 0x24), (0x00, 0x50), (0x00, 0x00), (0x00, 0x00)],
    [(0x00, 0x1A), (0x02, 0x1A), (0x00, 0x00), (0x00, 0x4E), (0x00, 0x00), (0x00, 0x00)],
    [(0x00, 0x0B), (0x02, 0x0B), (0x00, 0x35), (0x00, 0x24), (0x00, 0x00), (0x00, 0x00)],
    [(0x00, 0x13), (0x02, 0x13), (0x04, 0x11), (0x00, 0x28), (0x00, 0x00), (0x00, 0x00)],
    [(0x00, 0x19), (0x02, 0x19), (0x02, 0x38), (0x00, 0x2A), (0x00, 0x00), (0x00, 0x00)],
    [(0x00, 0x33), (0x02, 0x33), (0x02, 0x21), (0x00, 0x2B), (0x00, 0x00), (0x00, 0x00)],
    [(0x00, 0x0E), (0x02, 0x0E), (0x02, 0x1E), (0x04, 0x1E), (0x00, 0x00), (0x00, 0x00)],
    [(0x00, 0x2F), (0x02, 0x2F), (0x00, 0x31), (0x00, 0x00), (0x00, 0x00), (0x00, 0x00)],
    [(0x00, 0x1E), (0x06, 0x2F), (0x00, 0x00), (0x00, 0x00), (0x00, 0x00), (0x00, 0x00)],
    [(0x00, 0x1F), (0x02, 0x20), (0x00, 0x00), (0x00, 0x00), (0x00, 0x00), (0x00, 0x00)],
    [(0x00, 0x20), (0x04, 0x07), (0x00, 0x00), (0x00, 0x00), (0x00, 0x00), (0x00, 0x00)],
    [(0x00, 0x21), (0x06, 0x14), (0x06, 0x11), (0x00, 0x00), (0x00, 0x00), (0x00, 0x00)],
    [(0x00, 0x22), (0x04, 0x14), (0x06, 0x05), (0x06, 0x26), (0x00, 0x00), (0x00, 0x00)],
    [(0x00, 0x23), (0x02, 0x21), (0x04, 0x21), (0x06, 0x21), (0x00, 0x00), (0x00, 0x00)],
    [(0x00, 0x24), (0x04, 0x08), (0x04, 0x1D), (0x00, 0x00), (0x00, 0x00), (0x00, 0x00)],
    [(0x00, 0x25), (0x06, 0x1A), (0x04, 0x16), (0x00, 0x2B), (0x00, 0x00), (0x00, 0x00)],
    [(0x00, 0x26), (0x04, 0x1F), (0x04, 0x31), (0x02, 0x24), (0x00, 0x00), (0x00, 0x00)],
    [(0x00, 0x27), (0x06, 0x1F), (0x00, 0x00), (0x02, 0x30), (0x00, 0x00), (0x00, 0x00)],
    [(0x00, 0x28), (0x02, 0x28), (0x00, 0x28), (0x04, 0x28), (0x00, 0x28), (0x00, 0x28)],
    [(0x00, 0x29), (0x00, 0x29), (0x00, 0x29), (0x00, 0x29), (0x00, 0x29), (0x00, 0x29)],
    [(0x00, 0x2A), (0x00, 0x2A), (0x00, 0x2A), (0x00, 0x2A), (0x00, 0x2A), (0x00, 0x2A)],
    [(0x00, 0x2B), (0x00, 0x00), (0x00, 0x00), (0x00, 0x00), (0x00, 0x00), (0x00, 0x00)],
    [(0x00, 0x2C), (0x02, 0x2C), (0x00, 0x2C), (0x04, 0x27), (0x00, 0x00), (0x00, 0x00)],
    [(0x00, 0x38), (0x06, 0x38), (0x00, 0x00), (0x00, 0x38), (0x00, 0x00), (0x00, 0x00)],
    [(0x02, 0x2E), (0x02, 0x00), (0x00, 0x00), (0x00, 0x00), (0x00, 0x00), (0x00, 0x00)],
    [(0x00, 0x2D), (0x00, 0x00), (0x00, 0x00), (0x04, 0x38), (0x00, 0x00), (0x00, 0x00)],
    [(0x00, 0x2E), (0x00, 0x00), (0x00, 0x00), (0x00, 0x00), (0x00, 0x00), (0x00, 0x00)],
    [(0x00, 0x00), (0x00, 0x00), (0x00, 0x00), (0x00, 0x00), (0x00, 0x00), (0x00, 0x00)],
    [(0x00, 0x00), (0x00, 0x00), (0x00, 0x00), (0x00, 0x00), (0x00, 0x00), (0x00, 0x00)],
    [(0x00, 0x07), (0x02, 0x07), (0x02, 0x37), (0x00, 0x36), (0x00, 0x00), (0x00, 0x00)],
    [(0x00, 0x1D), (0x02, 0x1D), (0x04, 0x0F), (0x00, 0x37), (0x00, 0x00), (0x00, 0x00)],
    [(0x06, 0x23), (0x00, 0x00), (0x00, 0x00), (0x00, 0x00), (0x00, 0x00), (0x00, 0x00)],
    [(0x00, 0x36), (0x04, 0x38), (0x02, 0x1F), (0x00, 0x1F), (0x00, 0x00), (0x00, 0x00)],
    [(0x00, 0x37), (0x04, 0x2F), (0x02, 0x31), (0x00, 0x20), (0x00, 0x00), (0x00, 0x00)],
    [(0x00, 0x0D), (0x02, 0x0D), (0x02, 0x36), (0x02, 0x36), (0x00, 0x00), (0x00, 0x00)],
    [(0x00, 0x00), (0x00, 0x00), (0x00, 0x00), (0x00, 0x00), (0x00, 0x00), (0x00, 0x00)],
    [(0x00, 0x3A), (0x00, 0x3A), (0x00, 0x3A), (0x00, 0x3A), (0x00, 0x3A), (0x00, 0x3A)],
    [(0x00, 0x3B), (0x00, 0x3B), (0x00, 0x3B), (0x00, 0x3B), (0x00, 0x3B), (0x00, 0x3B)],
    [(0x00, 0x3C), (0x00, 0x3C), (0x00, 0x3C), (0x00, 0x3C), (0x00, 0x3C), (0x00, 0x3C)],
    [(0x00, 0x3D), (0x00, 0x3D), (0x00, 0x3D), (0x00, 0x3D), (0x00, 0x3D), (0x00, 0x3D)],
    [(0x00, 0x3E), (0x00, 0x3E), (0x00, 0x3E), (0x00, 0x3E), (0x00, 0x3E), (0x00, 0x3E)],
    [(0x00, 0x3F), (0x00, 0x3F), (0x00, 0x3F), (0x00, 0x3F), (0x00, 0x3F), (0x00, 0x3F)],
    [(0x00, 0x40), (0x00, 0x40), (0x00, 0x40), (0x00, 0x40), (0x00, 0x40), (0x00, 0x40)],
    [(0x00, 0x41), (0x00, 0x41), (0x00, 0x41), (0x00, 0x41), (0x00, 0x41), (0x00, 0x41)],
    [(0x00, 0x42), (0x00, 0x42), (0x00, 0x42), (0x00, 0x42), (0x00, 0x42), (0x00, 0x42)],
    [(0x00, 0x43), (0x00, 0x43), (0x00, 0x43), (0x00, 0x43), (0x00, 0x43), (0x00, 0x43)],
    [(0x00, 0x44), (0x00, 0x44), (0x00, 0x44), (0x00, 0x44), (0x00, 0x44), (0x00, 0x44)],
    [(0x00, 0x45), (0x00, 0x45), (0x00, 0x45), (0x00, 0x45), (0x00, 0x45), (0x00, 0x45)],
    [(0x00, 0x46), (0x00, 0x46), (0x00, 0x46), (0x00, 0x46), (0x00, 0x46), (0x00, 0x46)],
    [(0x00, 0x47), (0x00, 0x47), (0x00, 0x47), (0x00, 0x47), (0x00, 0x47), (0x00, 0x47)],
    [(0x00, 0x48), (0x00, 0x48), (0x00, 0x48), (0x00, 0x48), (0x00, 0x48), (0x00, 0x48)],
    [(0x00, 0x49), (0x00, 0x49), (0x00, 0x49), (0x00, 0x49), (0x00, 0x49), (0x00, 0x49)],
    [(0x00, 0x4A), (0x00, 0x4A), (0x00, 0x4A), (0x00, 0x4A), (0x00, 0x4A), (0x00, 0x4A)],
    [(0x00, 0x4B), (0x00, 0x4B), (0x00, 0x4B), (0x00, 0x4B), (0x00, 0x4B), (0x00, 0x4B)],
    [(0x00, 0x4C), (0x00, 0x4C), (0x00, 0x4C), (0x00, 0x4C), (0x00, 0x4C), (0x00, 0x4C)],
    [(0x00, 0x4D), (0x00, 0x4D), (0x00, 0x4D), (0x00, 0x4D), (0x00, 0x4D), (0x00, 0x4D)],
    [(0x00, 0x4E), (0x00, 0x4E), (0x00, 0x4E), (0x00, 0x4E), (0x00, 0x4E), (0x00, 0x4E)],
    [(0x00, 0x4F), (0x00, 0x4F), (0x00, 0x4F), (0x00, 0x4F), (0x00, 0x4F), (0x00, 0x4F)],
    [(0x00, 0x50), (0x00, 0x50), (0x00, 0x50), (0x00, 0x50), (0x00, 0x50), (0x00, 0x50)],
    [(0x00, 0x51), (0x00, 0x51), (0x00, 0x51), (0x00, 0x51), (0x00, 0x51), (0x00, 0x51)],
    [(0x00, 0x52), (0x00, 0x52), (0x00, 0x52), (0x00, 0x52), (0x00, 0x52), (0x00, 0x52)],
    [(0x00, 0x2B), (0x00, 0x00), (0x00, 0x00), (0x00, 0x00), (0x00, 0x00), (0x00, 0x00)],
    [(0x02, 0x24), (0x00, 0x00), (0x00, 0x00), (0x00, 0x00), (0x00, 0x00), (0x00, 0x00)],
    [(0x02, 0x30), (0x00, 0x00), (0x00, 0x00), (0x00, 0x00), (0x00, 0x00), (0x00, 0x00)],
    [(0x00, 0x38), (0x00, 0x00), (0x00, 0x00), (0x00, 0x00), (0x00, 0x00), (0x00, 0x00)],
    [(0x00, 0x30), (0x00, 0x00), (0x00, 0x00), (0x00, 0x00), (0x00, 0x00), (0x00, 0x00)],
    [(0x00, 0x28), (0x00, 0x00), (0x00, 0x00), (0x00, 0x00), (0x00, 0x00), (0x00, 0x00)],
    [(0x00, 0x1E), (0x00, 0x00), (0x00, 0x00), (0x00, 0x00), (0x00, 0x00), (0x00, 0x00)],
    [(0x00, 0x1F), (0x00, 0x00), (0x00, 0x00), (0x00, 0x00), (0x00, 0x00), (0x00, 0x00)],
    [(0x00, 0x20), (0x00, 0x00), (0x00, 0x00), (0x00, 0x00), (0x00, 0x00), (0x00, 0x00)],
    [(0x00, 0x21), (0x00, 0x00), (0x00, 0x00), (0x00, 0x00), (0x00, 0x00), (0x00, 0x00)],
    [(0x00, 0x22), (0x00, 0x00), (0x00, 0x00), (0x00, 0x00), (0x00, 0x00), (0x00, 0x00)],
    [(0x00, 0x23), (0x00, 0x00), (0x00, 0x00), (0x00, 0x00), (0x00, 0x00), (0x00, 0x00)],
    [(0x00, 0x24), (0x00, 0x00), (0x00, 0x00), (0x00, 0x00), (0x00, 0x00), (0x00, 0x00)],
    [(0x00, 0x25), (0x00, 0x00), (0x00, 0x00), (0x00, 0x00), (0x00, 0x00), (0x00, 0x00)],
    [(0x00, 0x26), (0x00, 0x00), (0x00, 0x00), (0x00, 0x00), (0x00, 0x00), (0x00, 0x00)],
    [(0x00, 0x27), (0x00, 0x00), (0x00, 0x00), (0x00, 0x00), (0x00, 0x00), (0x00, 0x00)],
    [(0x00, 0x36), (0x00, 0x00), (0x00, 0x00), (0x00, 0x00), (0x00, 0x00), (0x00, 0x00)]
  ]"

section \<open>Program state\<close>

text \<open>
  The global variables that \<^verbatim>\<open>parse_events\<close> and the session loop of \<^verbatim>\<open>main\<close> use.
  \<open>result_alloc\<close> says that the pointer \<^verbatim>\<open>result\<close> is not \<^verbatim>\<open>NULL\<close> (it is allocated by
  the option \<^verbatim>\<open>-x\<close>, which also sets \<^verbatim>\<open>stop_writing\<close>); \<open>id_x11\<close> is the variable \<^verbatim>\<open>id\<close>.
  \<open>loc_j\<close> and \<open>hidrep\<close> are the local variable \<^verbatim>\<open>j\<close> and the report buffer of
  \<^verbatim>\<open>parse_events\<close>: \<^verbatim>\<open>j\<close> is assigned by \<^verbatim>\<open>read\<close> before it is used, the buffer holds the
  bytes of the report built last.
  The last two fields are the environment: \<open>sent\<close> lists the packets handed to
  \<^verbatim>\<open>send\<close> on the interrupt channel, oldest first, and \<open>xinput\<close> the commands run through
  \<^verbatim>\<open>system\<close> (device id and the value written to "Device Enabled").
\<close>

record state =
  prepareshutdown :: byte
  mousebuttons :: byte
  modifierkeys :: "32 word"
  pressedkey :: "byte list"
  connectionok :: bool
  on :: bool
  stop_writing :: bool
  id_x11 :: byte
  result_alloc :: bool
  loc_j :: int
  hidrep :: "byte list"
  sent :: "byte list list"
  xinput :: "(byte \<times> bool) list"

text \<open>The initial values of the global variables; nothing has been sent.\<close>

definition init_state :: state where
  "init_state = \<lparr> prepareshutdown = 0, mousebuttons = 0, modifierkeys = 0,
     pressedkey = [0, 0, 0, 0, 0, 0, 0, 0], connectionok = False, on = False,
     stop_writing = False, id_x11 = 0, result_alloc = False,
     loc_j = 0, hidrep = [], sent = [], xinput = [] \<rparr>"

text \<open>
  How control leaves a piece of code: it goes on with the next statement, the function
  returns a value, the process exits with a status, or it writes through the null
  pointer \<^verbatim>\<open>result\<close>.
\<close>

datatype outcome = Continue | Return int | Exit int | Fault

section \<open>Reports\<close>

definition mouse_report :: "byte \<Rightarrow> byte \<Rightarrow> byte \<Rightarrow> byte \<Rightarrow> byte list" where
  "mouse_report button axis_x axis_y axis_z =
     [0xA1, REPORTID_MOUSE, button, axis_x, axis_y, axis_z]"

definition keyb_report :: "byte \<Rightarrow> byte list \<Rightarrow> byte list" where
  "keyb_report modify key = [0xA1, REPORTID_KEYBD, modify] @ take 8 key"

text \<open>
  The statement \<^verbatim>\<open>j = send (sockdesc, ...)\<close> on the interrupt channel. The value of
  \<^verbatim>\<open>send\<close> comes from the environment: \<open>net n\<close> is what the call number \<open>n\<close> of the
  process returns (the number of bytes written, 0, or -1). Packets are only sent while
  \<^verbatim>\<open>connectionok\<close> is set, when \<^verbatim>\<open>sockdesc\<close> is the interrupt channel of the session.
\<close>

definition send :: "(nat \<Rightarrow> int) \<Rightarrow> byte list \<Rightarrow> state \<Rightarrow> state" where
  "send net pkt s = s\<lparr>loc_j := net (length (sent s)), sent := sent s @ [pkt]\<rparr>"

section \<open>The translator\<close>

subsection \<open>Key index and modifier bit of a key code\<close>

text \<open>
  The regular keys are a cascade of case labels that fall through, each adding one to
  \<^verbatim>\<open>u\<close> (which starts at 1); \<open>None\<close> stands for an increment without a label. The
  cascade ends in \<^verbatim>\<open>case KEY_A: u += 3\<close>.
\<close>

definition regular_keys :: "16 word option list" where
  "regular_keys = [
    Some KEY_KPDOT, Some KEY_KP0, Some KEY_KP9, Some KEY_KP8, Some KEY_KP7,
    Some KEY_KP6, Some KEY_KP5, Some KEY_KP4, Some KEY_KP3, Some KEY_KP2,
    Some KEY_KP1, Some KEY_KPENTER, Some KEY_KPPLUS, Some KEY_KPMINUS, Some KEY_KPASTERISK,
    Some KEY_KPSLASH, Some KEY_NUMLOCK, Some KEY_UP, Some KEY_DOWN, Some KEY_LEFT,
    Some KEY_RIGHT, Some KEY_PAGEDOWN, Some KEY_END, Some KEY_DELETE, Some KEY_PAGEUP,
    Some KEY_HOME, Some KEY_INSERT, Some KEY_PAUSE, Some KEY_SCROLLLOCK, None,
    Some KEY_F12, Some KEY_F11, Some KEY_F10, Some KEY_F9, Some KEY_F8,
    Some KEY_F7, Some KEY_F6, Some KEY_F5, Some KEY_F4, Some KEY_F3,
    Some KEY_F2, Some KEY_F1, None, Some KEY_SLASH, Some KEY_DOT,
    Some KEY_COMMA, Some KEY_GRAVE, Some KEY_APOSTROPHE, Some KEY_SEMICOLON, None,
    None, Some KEY_RIGHTBRACE, Some KEY_LEFTBRACE, Some KEY_EQUAL, Some KEY_MINUS,
    Some KEY_SPACE, Some KEY_TAB, Some KEY_BACKSPACE, Some KEY_ESC, Some KEY_ENTER,
    Some KEY_0, Some KEY_9, Some KEY_8, Some KEY_7, Some KEY_6,
    Some KEY_5, Some KEY_4, Some KEY_3, Some KEY_2, Some KEY_1,
    Some KEY_Z, Some KEY_Y, Some KEY_X, Some KEY_W, Some KEY_V,
    Some KEY_U, Some KEY_T, Some KEY_S, Some KEY_R, Some KEY_Q,
    Some KEY_P, Some KEY_O, Some KEY_N, Some KEY_M, Some KEY_L,
    Some KEY_K, Some KEY_J, Some KEY_I, Some KEY_H, Some KEY_G,
    Some KEY_F, Some KEY_E, Some KEY_D, Some KEY_C, Some KEY_B
  ]"

fun cascade_u :: "16 word \<Rightarrow> 16 word option list \<Rightarrow> nat option" where
  "cascade_u c [] = None"
| "cascade_u c (l # ls) = (if l = Some c then Some (Suc (length ls)) else cascade_u c ls)"

definition key_u :: "16 word \<Rightarrow> nat" where
  "key_u c =
     (if c = KEY_A then 1 + 3
      else case cascade_u c regular_keys of Some n \<Rightarrow> 1 + n + 3 | None \<Rightarrow> 1)"

definition pressedmod_of :: "16 word \<Rightarrow> 32 word" where
  "pressedmod_of c =
     (if c = KEY_RIGHTMETA then 0x8080
      else if c = KEY_RIGHTCTRL then 0x8010
      else if c = KEY_LEFTMETA then 0x8008
      else if c = KEY_LEFTALT then 0x8004
      else if c = KEY_LEFTCTRL then 0x8001
      else if c = KEY_LEFTSHIFT then 0x0002
      else if c = KEY_RIGHTALT then 0x0040
      else if c = KEY_RIGHTSHIFT then 0x0020
      else if c = KEY_CAPSLOCK then 0x0100
      else if c = KEY_BACKSLASH then 0x0200
      else if c = KEY_102ND then 0x0400
      else 0)"

subsection \<open>The neo layer\<close>

definition neo_layer :: "32 word \<Rightarrow> nat" where
  "neo_layer mk =
     (let layermod = (0 :: byte);
          layermod = (if mk AND 0x0022 \<noteq> 0 then layermod OR 0x01 else layermod);
          layermod = (if mk AND 0x0300 \<noteq> 0 then layermod OR 0x02 else layermod);
          layermod = (if mk AND 0x0440 \<noteq> 0 then layermod OR 0x04 else layermod);
          layer = (0 :: nat);
          layer = (if layermod AND 0x01 = 0x01 then 1 else layer);
          layer = (if layermod AND 0x02 = 0x02 then 2 else layer);
          layer = (if layermod AND 0x04 = 0x04 then 3 else layer);
          layer = (if layermod AND 0x03 = 0x03 then 4 else layer);
          layer = (if layermod AND 0x06 = 0x06 then 5 else layer)
      in layer)"

subsection \<open>The array of pressed keys\<close>

text \<open>
  Key down: \<^verbatim>\<open>for (j = 0; j < 8; ++j)\<close>, storing the usage in the first free slot unless
  it is met before; both branches set \<^verbatim>\<open>j = 8\<close>. The loops return the array and the
  final value of \<^verbatim>\<open>j\<close>.
\<close>

function key_down :: "byte list \<Rightarrow> byte \<Rightarrow> nat \<Rightarrow> byte list \<times> nat" where
  "key_down pk c j =
     (if j < 8 then
        (if pk ! j = 0 then key_down (pk[j := c]) c (8 + 1)
         else if pk ! j = c then key_down pk c (8 + 1)
         else key_down pk c (j + 1))
      else (pk, j))"
  by pat_completeness auto
termination
  by (relation "measure (\<lambda>(pk, c, j). 9 - j)") auto

text \<open>
  Key up: the inner loop \<^verbatim>\<open>while (j < 7) { pressedkey[j] = pressedkey[j+1]; ++j; }\<close>
  and the loop around it.
\<close>

function shift_left :: "byte list \<Rightarrow> nat \<Rightarrow> byte list \<times> nat" where
  "shift_left pk j = (if j < 7 then shift_left (pk[j := pk ! (j + 1)]) (j + 1) else (pk, j))"
  by pat_completeness auto
termination
  by (relation "measure (\<lambda>(pk, j). 7 - j)") auto

lemma shift_left_j: "j \<le> snd (shift_left pk j)"
proof (induction pk j rule: shift_left.induct)
  case (1 pk j)
  show ?case
  proof (cases "j < 7")
    case True
    with 1 have "j + 1 \<le> snd (shift_left (pk[j := pk ! (j + 1)]) (j + 1))" by simp
    with True show ?thesis by (subst shift_left.simps) simp
  next
    case False
    then show ?thesis by (subst shift_left.simps) simp
  qed
qed

function key_up :: "byte list \<Rightarrow> byte \<Rightarrow> nat \<Rightarrow> byte list \<times> nat" where
  "key_up pk c j =
     (if j < 8 then
        (if pk ! j = c then
           (case shift_left pk j of (pk1, j1) \<Rightarrow> key_up (pk1[7 := 0]) c (j1 + 1))
         else key_up pk c (j + 1))
      else (pk, j))"
  by pat_completeness auto
termination key_up
  apply (relation "measure (\<lambda>(pk, c, j). 8 - j)")
    apply simp
  subgoal for pk c j
    using shift_left_j [of j pk] by (auto simp: prod_eq_iff)
  apply simp
  done

subsection \<open>Events\<close>

text \<open>
  The four places that send a report share their last lines. For a mouse report:
  \<^verbatim>\<open>if (!connectionok) break; j = send (...); if (1 > j) return -1; break;\<close>
  and for a keyboard report the same with \<^verbatim>\<open>if (on)\<close> before the \<^verbatim>\<open>send\<close>, so that the test
  \<^verbatim>\<open>1 > j\<close> reads the value \<^verbatim>\<open>j\<close> had before when \<^verbatim>\<open>on\<close> is 0. The report is in the
  buffer. A \<^verbatim>\<open>break\<close> is the outcome \<open>Continue\<close>.
\<close>

definition mouse_send :: "(nat \<Rightarrow> int) \<Rightarrow> state \<Rightarrow> outcome \<times> state" where
  "mouse_send net s =
     (if \<not> connectionok s then (Continue, s)
      else let s1 = send net (hidrep s) s
           in if 1 > loc_j s1 then (Return (- 1), s1) else (Continue, s1))"

definition keyb_send :: "(nat \<Rightarrow> int) \<Rightarrow> state \<Rightarrow> outcome \<times> state" where
  "keyb_send net s =
     (if \<not> connectionok s then (Continue, s)
      else let s1 = (if on s then send net (hidrep s) s else s)
           in if 1 > loc_j s1 then (Return (- 1), s1) else (Continue, s1))"

text \<open>A mouse button: the button mask is updated and a mouse report is built and sent.\<close>

definition button_update :: "input_event \<Rightarrow> state \<Rightarrow> state" where
  "button_update ev s =
     (let c = (push_bit (unat (ev_code ev AND 0x03)) 1 :: byte);
          mb0 = mousebuttons s AND (0x07 - c);
          mb = (if ev_value ev = 1 then mb0 OR c else mb0)
      in s\<lparr>mousebuttons := mb, hidrep := mouse_report (mb AND 0x07) 0 0 0\<rparr>)"

definition mouse_button :: "(nat \<Rightarrow> int) \<Rightarrow> input_event \<Rightarrow> state \<Rightarrow> outcome \<times> state" where
  "mouse_button net ev s = mouse_send net (button_update ev s)"

text \<open>
  The loop over the array \<^verbatim>\<open>pass\<close> of \<^verbatim>\<open>pass.h\<close> (a file the user writes; the array and
  its length \<^verbatim>\<open>ARRAY\<close> are a parameter here, a list of pairs). The local variable
  \<^verbatim>\<open>mod\<close> is passed along, since the code behind the \<^verbatim>\<open>switch\<close> reads it.
\<close>

fun pass_loop :: "(nat \<Rightarrow> int) \<Rightarrow> (byte \<times> byte) list \<Rightarrow> byte \<Rightarrow> state \<Rightarrow> outcome \<times> byte \<times> state" where
  "pass_loop net [] md s = (Continue, md, s)"
| "pass_loop net (p # ps) md s =
     (let s1 = s\<lparr>pressedkey := (pressedkey s)[0 := snd p]\<rparr>;
          s2 = s1\<lparr>hidrep := keyb_report (fst p) (pressedkey s1)\<rparr>
      in if \<not> connectionok s2 then (Continue, fst p, s2)
         else case keyb_send net s2 of
                (Continue, s3) \<Rightarrow> pass_loop net ps (fst p) s3
              | (r, s3) \<Rightarrow> (r, fst p, s3))"

text \<open>
  The key PRINT (\<^verbatim>\<open>KEY_SYSRQ\<close>). On release: with the left control key held, a report
  with no key is sent and the process exits; with the right control key held, the
  array \<^verbatim>\<open>pass\<close> is sent; otherwise \<^verbatim>\<open>on\<close> is flipped. The command for \<^verbatim>\<open>system\<close> is
  written to \<^verbatim>\<open>result\<close> first.
\<close>

definition sysrq_key :: "(nat \<Rightarrow> int) \<Rightarrow> (byte \<times> byte) list \<Rightarrow> input_event \<Rightarrow> state \<Rightarrow> outcome \<times> byte \<times> state" where
  "sysrq_key net pass ev s =
     (if ev_value ev = 0 then
        if modifierkeys s AND 0x1 = 0x1 then
          (let s1 = (if connectionok s
                     then send net (keyb_report 0 (replicate 8 0))
                            (s\<lparr>hidrep := keyb_report 0 (replicate 8 0)\<rparr>)
                     else s)
           in if result_alloc s1
              then (Exit 0, 0, s1\<lparr>xinput := xinput s1 @ [(id_x11 s1, True)]\<rparr>)
              else (Fault, 0, s1))
        else if modifierkeys s AND 0x10 = 0x10 then
          (case pass_loop net pass 0 s of
             (Continue, md, s1) \<Rightarrow> (Continue, md, s1\<lparr>pressedkey := (pressedkey s1)[0 := 0]\<rparr>)
           | r \<Rightarrow> r)
        else
          (let s1 = s\<lparr>on := \<not> on s\<rparr>
           in if stop_writing s1 then
                (if id_x11 s1 = 0 then (Continue, 0, s1)
                 else if result_alloc s1
                 then (Continue, 0, s1\<lparr>xinput := xinput s1 @ [(id_x11 s1, \<not> on s1)]\<rparr>)
                 else (Fault, 0, s1))
              else (Continue, 0, s1))
      else (Continue, 0, s))"

text \<open>
  The code behind the inner \<^verbatim>\<open>switch\<close>, which every key event reaches that left the
  \<^verbatim>\<open>switch\<close> by \<^verbatim>\<open>break\<close> or through \<^verbatim>\<open>default\<close>: with the key index \<^verbatim>\<open>u\<close>, the modifier
  bit \<^verbatim>\<open>pressedmod\<close> and the value of \<^verbatim>\<open>mod\<close> that the \<^verbatim>\<open>switch\<close> left. First the state is
  brought up to date and the report is built, then it is sent.
\<close>

definition key_update :: "input_event \<Rightarrow> nat \<Rightarrow> 32 word \<Rightarrow> byte \<Rightarrow> state \<Rightarrow> state" where
  "key_update ev u pressedmod md0 s =
     (let mk0 = modifierkeys s AND (0xffff - pressedmod);
          mk = (if 1 \<le> sint (ev_value ev) then mk0 OR pressedmod else mk0);
          md1 = (if pressedmod AND 0x8000 \<noteq> 0 then ucast mk else md0);
          layer = neo_layer mk;
          printchar = snd (chars ! u ! layer);
          md = (if printchar \<noteq> 0 then fst (chars ! u ! layer) else md1);
          pkj = (if ev_value ev = 1 then
                   (case key_down (pressedkey s) printchar 0 of (pk, j) \<Rightarrow> (pk, int j))
                 else if ev_value ev = 0 then
                   (case key_up (pressedkey s) printchar 0 of (pk, j) \<Rightarrow> (pk, int j))
                 else (pressedkey s, loc_j s))
      in s\<lparr>modifierkeys := mk, pressedkey := fst pkj, loc_j := snd pkj,
            hidrep := keyb_report md (fst pkj)\<rparr>)"

definition key_tail :: "(nat \<Rightarrow> int) \<Rightarrow> input_event \<Rightarrow> nat \<Rightarrow> 32 word \<Rightarrow> byte \<Rightarrow> state \<Rightarrow> outcome \<times> state" where
  "key_tail net ev u pressedmod md0 s = keyb_send net (key_update ev u pressedmod md0 s)"

definition key_event :: "(nat \<Rightarrow> int) \<Rightarrow> (byte \<times> byte) list \<Rightarrow> input_event \<Rightarrow> state \<Rightarrow> outcome \<times> state" where
  "key_event net pass ev s =
     (if ev_code ev = BTN_LEFT \<or> ev_code ev = BTN_RIGHT \<or> ev_code ev = BTN_MIDDLE then
        (case mouse_button net ev s of
           (Continue, s1) \<Rightarrow> key_tail net ev 1 0 0 s1
         | r \<Rightarrow> r)
      else if ev_code ev = KEY_SYSRQ then
        (case sysrq_key net pass ev s of
           (Continue, md, s1) \<Rightarrow> key_tail net ev 1 0 md s1
         | (r, md, s1) \<Rightarrow> (r, s1))
      else key_tail net ev (key_u (ev_code ev)) (pressedmod_of (ev_code ev)) 0 s)"

text \<open>Relative movement: only the codes 0, 1, 2 and 8 are handled.\<close>

definition rel_update :: "input_event \<Rightarrow> state \<Rightarrow> state" where
  "rel_update ev s =
     s\<lparr>hidrep := mouse_report (mousebuttons s AND 0x07)
                   (if ev_code ev = ABS_X then ucast (ev_value ev) else 0)
                   (if ev_code ev = ABS_Y then ucast (ev_value ev) else 0)
                   (if ev_code ev \<ge> ABS_Z then ucast (ev_value ev) else 0)\<rparr>"

definition rel_event :: "(nat \<Rightarrow> int) \<Rightarrow> input_event \<Rightarrow> state \<Rightarrow> outcome \<times> state" where
  "rel_event net ev s =
     (if ev_code ev = ABS_X \<or> ev_code ev = ABS_Y \<or> ev_code ev = ABS_Z \<or> ev_code ev = REL_WHEEL
      then mouse_send net (rel_update ev s)
      else (Continue, s))"

text \<open>
  One round of the loop of \<^verbatim>\<open>parse_events\<close> for a device whose \<^verbatim>\<open>read\<close> delivered a
  whole event: \<^verbatim>\<open>j\<close> is the size read, then the \<^verbatim>\<open>switch\<close> on the event type.
\<close>

definition handle_event :: "(nat \<Rightarrow> int) \<Rightarrow> (byte \<times> byte) list \<Rightarrow> input_event \<Rightarrow> state \<Rightarrow> outcome \<times> state" where
  "handle_event net pass ev s0 =
     (let s = s0\<lparr>loc_j := sizeof_input_event\<rparr>
      in if ev_type ev = EV_KEY then key_event net pass ev s
         else if ev_type ev = EV_REL then rel_event net ev s
         else (Continue, s))"

text \<open>
  \<^verbatim>\<open>parse_events\<close>: one \<^verbatim>\<open>read\<close> for every open device that is ready, in the order of
  the devices. A read of fewer bytes than an event (or 0, or -1) is dropped.
\<close>

datatype read_result = Read_short int | Read_event input_event

fun parse_loop :: "(nat \<Rightarrow> int) \<Rightarrow> (byte \<times> byte) list \<Rightarrow> read_result list \<Rightarrow> state \<Rightarrow> outcome \<times> state" where
  "parse_loop net pass [] s = (Return 0, s)"
| "parse_loop net pass (Read_short n # rs) s = parse_loop net pass rs (s\<lparr>loc_j := n\<rparr>)"
| "parse_loop net pass (Read_event ev # rs) s =
     (case handle_event net pass ev s of
        (Continue, s1) \<Rightarrow> parse_loop net pass rs s1
      | r \<Rightarrow> r)"

definition parse_events :: "(nat \<Rightarrow> int) \<Rightarrow> (byte \<times> byte) list \<Rightarrow> read_result list option \<Rightarrow> state \<Rightarrow> outcome \<times> state" where
  "parse_events net pass efds s =
     (case efds of None \<Rightarrow> (Return (- 1), s) | Some rs \<Rightarrow> parse_loop net pass rs s)"

section \<open>The session loop of main\<close>

text \<open>
  The process: the global variables and what it holds open, namely the control and the
  interrupt channel of the session (\<^verbatim>\<open>sctl\<close>, \<^verbatim>\<open>sint\<close>), the two listening sockets, the
  SDP record and the input devices.
\<close>

record process =
  st :: state
  ctl_chan_open :: bool
  int_chan_open :: bool
  listening :: bool
  sdp_registered :: bool
  evdevs_open :: bool

text \<open>
  Where the process stands after a piece of \<^verbatim>\<open>main\<close>: \<open>Waiting\<close> in a \<^verbatim>\<open>select\<close> for
  input that the given script of the environment does not hold, \<open>Next\<close> when control
  goes on behind the piece, \<open>Stopped n\<close> when the process has ended with status \<open>n\<close>
  (\<^verbatim>\<open>return\<close> from \<^verbatim>\<open>main\<close> or \<^verbatim>\<open>exit\<close>), \<open>Crashed\<close> after a write through the null pointer.
\<close>

datatype status = Waiting | Next | Stopped int | Crashed

text \<open>
  The two loops that collect and discard input while no session is connected. Each
  element of the script is one \<^verbatim>\<open>select\<close> that found input, with the reads
  \<^verbatim>\<open>parse_events\<close> makes; the loop ends when \<^verbatim>\<open>select\<close> finds nothing.
\<close>

fun drain :: "(nat \<Rightarrow> int) \<Rightarrow> (byte \<times> byte) list \<Rightarrow> read_result list list \<Rightarrow> process \<Rightarrow> status \<times> process" where
  "drain net pass [] p = (Next, p)"
| "drain net pass (rs # rounds) p =
     (case parse_events net pass (Some rs) (st p) of
        (Exit n, s) \<Rightarrow> (Stopped n, p\<lparr>st := s\<rparr>)
      | (Fault, s) \<Rightarrow> (Crashed, p\<lparr>st := s\<rparr>)
      | (Return j, s) \<Rightarrow>
          if - 1 > j then (Next, p\<lparr>st := s\<lparr>prepareshutdown := 1\<rparr>\<rparr>)
          else drain net pass rounds (p\<lparr>st := s\<rparr>)
      | (Continue, s) \<Rightarrow> drain net pass rounds (p\<lparr>st := s\<rparr>))"

text \<open>The session starts: lines \<^verbatim>\<open>connectionok = 1\<close> to \<^verbatim>\<open>mousebuttons = 0\<close>.\<close>

definition start_session :: "process \<Rightarrow> process" where
  "start_session p =
     p\<lparr>st := (st p)\<lparr>connectionok := True, pressedkey := replicate 8 0,
                      modifierkeys := 0, mousebuttons := 0\<rparr>\<rparr>"

text \<open>
  \<^verbatim>\<open>while (connectionok)\<close> with the \<^verbatim>\<open>select\<close> loop in it. A \<^verbatim>\<open>select\<close> that times out
  only starts the inner loop again, so the script lists the rounds with input. A
  negative value of \<^verbatim>\<open>parse_events\<close> ends the session.
\<close>

fun connected :: "(nat \<Rightarrow> int) \<Rightarrow> (byte \<times> byte) list \<Rightarrow> read_result list list \<Rightarrow> process \<Rightarrow> status \<times> process" where
  "connected net pass [] p = (Waiting, p)"
| "connected net pass (rs # rounds) p =
     (case parse_events net pass (Some rs) (st p) of
        (Exit n, s) \<Rightarrow> (Stopped n, p\<lparr>st := s\<rparr>)
      | (Fault, s) \<Rightarrow> (Crashed, p\<lparr>st := s\<rparr>)
      | (Return j, s) \<Rightarrow>
          if 0 > j then
            (if j < - 1 then
               (Next, p\<lparr>st := s\<lparr>connectionok := False, prepareshutdown := 1\<rparr>,
                        int_chan_open := False, ctl_chan_open := False\<rparr>)
             else (Next, p\<lparr>st := s\<lparr>connectionok := False\<rparr>\<rparr>))
          else connected net pass rounds (p\<lparr>st := s\<rparr>)
      | (Continue, s) \<Rightarrow> connected net pass rounds (p\<lparr>st := s\<rparr>))"

text \<open>Behind the loop: \<^verbatim>\<open>connectionok = 0; close (sint); close (sctl);\<close>\<close>

definition close_session :: "process \<Rightarrow> process" where
  "close_session p =
     p\<lparr>st := (st p)\<lparr>connectionok := False\<rparr>, int_chan_open := False, ctl_chan_open := False\<rparr>"

definition session :: "(nat \<Rightarrow> int) \<Rightarrow> (byte \<times> byte) list \<Rightarrow> read_result list list \<Rightarrow> process \<Rightarrow> status \<times> process" where
  "session net pass rounds p =
     (case connected net pass rounds (start_session p) of
        (Next, p1) \<Rightarrow> (Next, close_session p1)
      | r \<Rightarrow> r)"

text \<open>
  How the wait for the two connections of a session ends. \<^verbatim>\<open>select\<close> fails with
  \<^verbatim>\<open>EINTR\<close> when a signal arrives; the flag says that it was one of the signals the
  program handles (\<^verbatim>\<open>SIGHUP\<close>, \<^verbatim>\<open>SIGTERM\<close>, \<^verbatim>\<open>SIGINT\<close>), whose handler sets
  \<^verbatim>\<open>prepareshutdown\<close> to 1 while no session is connected. Signals at other moments are
  not part of this model.
\<close>

datatype accept_result =
    Ctl_eintr bool | Ctl_error | Ctl_timeout | Ctl_accept_failed
  | Int_eintr bool | Int_error | Int_timeout | Int_accept_failed
  | Accepted

text \<open>What the environment does during one round of the loop of \<^verbatim>\<open>main\<close>.\<close>

record iteration =
  it_drain1 :: "read_result list list"
  it_accept :: accept_result
  it_drain2 :: "read_result list list"
  it_session :: "read_result list list"

definition on_signal :: "bool \<Rightarrow> process \<Rightarrow> process" where
  "on_signal handled p = (if handled then p\<lparr>st := (st p)\<lparr>prepareshutdown := 1\<rparr>\<rparr> else p)"

text \<open>
  The body of \<^verbatim>\<open>while (0 == prepareshutdown)\<close>. A \<^verbatim>\<open>break\<close> out of this loop is taken
  only with \<^verbatim>\<open>prepareshutdown\<close> set, so it is \<open>Next\<close> as well: the test of the loop then
  fails.
\<close>

definition main_iteration :: "(nat \<Rightarrow> int) \<Rightarrow> (byte \<times> byte) list \<Rightarrow> iteration \<Rightarrow> process \<Rightarrow> status \<times> process" where
  "main_iteration net pass it p =
     (case drain net pass (it_drain1 it) p of
        (Next, p1) \<Rightarrow>
          if prepareshutdown (st p1) \<noteq> 0 then (Next, p1)
          else
            (let p2 = p1\<lparr>st := (st p1)\<lparr>connectionok := False\<rparr>\<rparr>
             in case it_accept it of
                  Ctl_eintr handled \<Rightarrow> (Next, on_signal handled p2)
                | Ctl_error \<Rightarrow> (Stopped 11, p2)
                | Ctl_timeout \<Rightarrow> (Next, p2)
                | Ctl_accept_failed \<Rightarrow> (Next, p2)
                | Int_eintr handled \<Rightarrow> (Next, on_signal handled p2)
                | Int_error \<Rightarrow> (Stopped 12, p2\<lparr>ctl_chan_open := True\<rparr>)
                | Int_timeout \<Rightarrow> (Next, p2)
                | Int_accept_failed \<Rightarrow> (Next, p2)
                | Accepted \<Rightarrow>
                    (case drain net pass (it_drain2 it)
                            (p2\<lparr>ctl_chan_open := True, int_chan_open := True\<rparr>) of
                       (Next, p3) \<Rightarrow>
                         if prepareshutdown (st p3) \<noteq> 0 then (Next, p3)
                         else session net pass (it_session it) p3
                     | r \<Rightarrow> r))
      | r \<Rightarrow> r)"

text \<open>
  Behind the loop of \<^verbatim>\<open>main\<close>: the listening sockets are closed, the SDP record is
  removed, the input devices are closed, and \<^verbatim>\<open>main\<close> returns 0.
\<close>

definition teardown :: "process \<Rightarrow> process" where
  "teardown p = p\<lparr>listening := False, sdp_registered := False, evdevs_open := False\<rparr>"

fun main_loop :: "(nat \<Rightarrow> int) \<Rightarrow> (byte \<times> byte) list \<Rightarrow> iteration list \<Rightarrow> process \<Rightarrow> status \<times> process" where
  "main_loop net pass [] p =
     (if prepareshutdown (st p) \<noteq> 0 then (Stopped 0, teardown p) else (Waiting, p))"
| "main_loop net pass (it # its) p =
     (if prepareshutdown (st p) \<noteq> 0 then (Stopped 0, teardown p)
      else case main_iteration net pass it p of
             (Next, p1) \<Rightarrow> main_loop net pass its p1
           | r \<Rightarrow> r)"

text \<open>
  The process when \<^verbatim>\<open>main\<close> enters its loop: the command line has been read (\<open>x11\<close> is
  the option \<^verbatim>\<open>-x\<close>, which sets \<^verbatim>\<open>stop_writing\<close> and allocates \<^verbatim>\<open>result\<close>; \<open>dev\<close> is the
  device id that \<^verbatim>\<open>initevents\<close> stored in \<^verbatim>\<open>id\<close>), the SDP record is registered, the
  devices and the listening sockets are open.
\<close>

definition init_process :: "bool \<Rightarrow> byte \<Rightarrow> process" where
  "init_process x11 dev =
     \<lparr> st = init_state\<lparr>stop_writing := x11, result_alloc := x11, id_x11 := dev\<rparr>,
       ctl_chan_open = False, int_chan_open = False, listening = True,
       sdp_registered = True, evdevs_open = True \<rparr>"

section \<open>Predicates and reference functions for the properties\<close>

text \<open>
  The usages the array of pressed keys holds, and the form the key loops keep it in:
  eight bytes, the usages held (all different) first, then zeros.
\<close>

definition held :: "byte list \<Rightarrow> byte list" where
  "held pk = filter (\<lambda>k. k \<noteq> 0) pk"

definition wf_pressed :: "byte list \<Rightarrow> bool" where
  "wf_pressed pk \<longleftrightarrow>
     length pk = 8 \<and> pk = held pk @ replicate (8 - length (held pk)) 0 \<and> distinct (held pk)"

text \<open>
  What the two key loops compute, as functions on lists: \<open>press\<close> stores the usage in
  the first free slot unless it meets it before, \<open>release\<close> deletes the first
  occurrence and appends a zero.
\<close>

fun press :: "byte list \<Rightarrow> byte \<Rightarrow> byte list" where
  "press [] c = []"
| "press (x # xs) c = (if x = 0 then c # xs else if x = c then x # xs else x # press xs c)"

fun release :: "byte list \<Rightarrow> byte \<Rightarrow> byte list" where
  "release [] c = []"
| "release (x # xs) c = (if x = c then xs @ [0] else x # release xs c)"

text \<open>A packet is a mouse report or a keyboard report by its second byte.\<close>

definition is_mouse_report :: "byte list \<Rightarrow> bool" where
  "is_mouse_report pkt \<longleftrightarrow> length pkt = 6 \<and> pkt ! 1 = REPORTID_MOUSE"

definition is_keyb_report :: "byte list \<Rightarrow> bool" where
  "is_keyb_report pkt \<longleftrightarrow> length pkt = 11 \<and> pkt ! 1 = REPORTID_KEYBD"

text \<open>
  The calls of \<^verbatim>\<open>send\<close> are numbered by the packets sent before. \<open>sends_ok net a b\<close>:
  the calls \<open>a\<close> to \<open>b - 1\<close> have all written something. \<open>orderly net s r s'\<close>, for a
  piece of code that leads from \<open>s\<close> to \<open>s'\<close> with outcome \<open>r\<close>: packets have only been
  added, every \<^verbatim>\<open>send\<close> before the last one has written something, and so has the last
  one unless the code has returned -1 or the process has ended.
\<close>

definition sends_ok :: "(nat \<Rightarrow> int) \<Rightarrow> nat \<Rightarrow> nat \<Rightarrow> bool" where
  "sends_ok net a b = list_all (\<lambda>n. 1 \<le> net n) [a..<b]"

definition orderly :: "(nat \<Rightarrow> int) \<Rightarrow> state \<Rightarrow> outcome \<Rightarrow> state \<Rightarrow> bool" where
  "orderly net s r s' \<longleftrightarrow>
     length (sent s) \<le> length (sent s')
     \<and> sends_ok net (length (sent s)) (length (sent s') - 1)
     \<and> (sends_ok net (length (sent s)) (length (sent s'))
        \<or> r = Return (- 1) \<or> r = Exit 0 \<or> r = Fault)"

text \<open>
  The release of the PRINT key, and scripts of the environment in which it does not
  occur: a list of rounds of reads, and one round of the loop of \<^verbatim>\<open>main\<close>.
\<close>

definition print_release :: "input_event \<Rightarrow> bool" where
  "print_release ev \<longleftrightarrow> ev_type ev = EV_KEY \<and> ev_code ev = KEY_SYSRQ \<and> ev_value ev = 0"

fun no_release :: "read_result \<Rightarrow> bool" where
  "no_release (Read_short n) = True"
| "no_release (Read_event ev) = (\<not> print_release ev)"

definition no_print_release :: "read_result list list \<Rightarrow> bool" where
  "no_print_release rounds = list_all (list_all no_release) rounds"

definition untoggled :: "iteration \<Rightarrow> bool" where
  "untoggled it \<longleftrightarrow>
     no_print_release (it_drain1 it) \<and> no_print_release (it_drain2 it)
     \<and> no_print_release (it_session it)"

text \<open>
  Two states are the same but for the local variables \<^verbatim>\<open>j\<close> and \<^verbatim>\<open>hidrep\<close> of
  \<^verbatim>\<open>parse_events\<close>, which hold what the last call left on the stack; two processes are
  the same but for these.
\<close>

definition same_globals :: "state \<Rightarrow> state \<Rightarrow> bool" where
  "same_globals s t \<longleftrightarrow> s\<lparr>loc_j := 0, hidrep := []\<rparr> = t\<lparr>loc_j := 0, hidrep := []\<rparr>"

definition same_process :: "process \<Rightarrow> process \<Rightarrow> bool" where
  "same_process p q \<longleftrightarrow>
     same_globals (st p) (st q) \<and> ctl_chan_open p = ctl_chan_open q
     \<and> int_chan_open p = int_chan_open q \<and> listening p = listening q
     \<and> sdp_registered p = sdp_registered q \<and> evdevs_open p = evdevs_open q"

text \<open>
  The events that a list of reads delivers, and those of a list of rounds. \<open>feed\<close> is the
  reference for a sequence of events: they are handled one after the other until one
  does not end with \<open>Continue\<close>.
\<close>

fun events :: "read_result list \<Rightarrow> input_event list" where
  "events [] = []"
| "events (Read_short n # rs) = events rs"
| "events (Read_event ev # rs) = ev # events rs"

definition events_of :: "read_result list list \<Rightarrow> input_event list" where
  "events_of rounds = concat (map events rounds)"

fun feed :: "(nat \<Rightarrow> int) \<Rightarrow> (byte \<times> byte) list \<Rightarrow> input_event list \<Rightarrow> state \<Rightarrow> outcome \<times> state" where
  "feed net pass [] s = (Continue, s)"
| "feed net pass (ev # evs) s =
     (case handle_event net pass ev s of
        (Continue, s1) \<Rightarrow> feed net pass evs s1
      | r \<Rightarrow> r)"

text \<open>
  Two rounds of the loop of \<^verbatim>\<open>main\<close> deliver the same events: the wait for the
  connections ends the same way, and before it, behind it and during the session the
  same events are read in the same order. How \<^verbatim>\<open>select\<close> groups them and where a
  short read falls may differ.
\<close>

definition same_events :: "iteration \<Rightarrow> iteration \<Rightarrow> bool" where
  "same_events it1 it2 \<longleftrightarrow>
     it_accept it1 = it_accept it2
     \<and> events_of (it_drain1 it1) = events_of (it_drain1 it2)
     \<and> events_of (it_drain2 it1) = events_of (it_drain2 it2)
     \<and> events_of (it_session it1) = events_of (it_session it2)"

text \<open>
  Whether the left control key is held behind an event, given whether it was held before
  it; and a sequence of events in which PRINT is never released while the left control
  key is held, that is, in which the terminate key is not used. The first argument says
  whether the left control key is held at the start.
\<close>

definition lctrl_after :: "bool \<Rightarrow> input_event \<Rightarrow> bool" where
  "lctrl_after h ev =
     (if ev_type ev = EV_KEY \<and> ev_code ev = KEY_LEFTCTRL then 1 \<le> sint (ev_value ev) else h)"

fun no_terminate :: "bool \<Rightarrow> input_event list \<Rightarrow> bool" where
  "no_terminate h [] = True"
| "no_terminate h (ev # evs) =
     (\<not> (print_release ev \<and> h) \<and> no_terminate (lctrl_after h ev) evs)"

section \<open>Facts about the table, the key index and the layer\<close>

lemma neo_layer_groups:
  "neo_layer mk =
     (if mk AND 0x0300 \<noteq> 0 \<and> mk AND 0x0440 \<noteq> 0 then 5
      else if mk AND 0x0022 \<noteq> 0 \<and> mk AND 0x0300 \<noteq> 0 then 4
      else if mk AND 0x0440 \<noteq> 0 then 3
      else if mk AND 0x0300 \<noteq> 0 then 2
      else if mk AND 0x0022 \<noteq> 0 then 1
      else 0)"
  by (simp add: neo_layer_def Let_def)

lemma neo_layer_lt: "neo_layer mk < 6"
  by (simp add: neo_layer_groups)

lemma cascade_u_le: "cascade_u c ls = Some n \<Longrightarrow> n \<le> length ls"
  by (induction ls) (auto split: if_splits)

lemma key_u_lt: "key_u c < 100"
proof (cases "cascade_u c regular_keys")
  case None
  then show ?thesis by (simp add: key_u_def)
next
  case (Some n)
  then have "n \<le> length regular_keys" by (rule cascade_u_le)
  also have "length regular_keys = 95" by (simp add: regular_keys_def)
  finally show ?thesis using Some by (simp add: key_u_def)
qed

lemma chars_length: "length chars = 100"
  by (simp add: chars_def)

lemma chars_rows: "list_all (\<lambda>row. length row = 6) chars"
  by (simp add: chars_def)

text \<open>
  Every usage of the table is below 0x80, so comparing an element of the array
  \<^verbatim>\<open>char pressedkey[8]\<close> with the \<^verbatim>\<open>unsigned char printchar\<close> is the equality of the two
  bytes, whether \<^verbatim>\<open>char\<close> is signed or not.
\<close>

lemma chars_small: "list_all (list_all (\<lambda>p. snd p < 0x80)) chars"
  by (simp add: chars_def)

lemma chars_row1: "l < 6 \<Longrightarrow> snd (chars ! 1 ! l) = 0"
proof -
  have "chars ! 1 = [(0, 0), (0, 0), (0, 0), (0, 0), (0, 0), (0, 0)]"
    by (simp add: chars_def)
  moreover assume "l < 6"
  then have "l \<in> {0, 1, 2, 3, 4, 5}" by auto
  ultimately show ?thesis by auto
qed

lemma printchar_row1 [simp]: "snd (chars ! Suc 0 ! neo_layer mk) = 0"
  using chars_row1 [OF neo_layer_lt] by simp

section \<open>The key loops compute press and release\<close>

declare key_down.simps [simp del] shift_left.simps [simp del] key_up.simps [simp del]

lemma key_down_done: "8 \<le> j \<Longrightarrow> key_down pk c j = (pk, j)"
  by (subst key_down.simps) simp

lemma key_down_press:
  "length pk = 8 \<Longrightarrow> j \<le> 8 \<Longrightarrow> fst (key_down pk c j) = take j pk @ press (drop j pk) c"
proof (induction pk c j rule: key_down.induct)
  case (1 pk c j)
  show ?case
  proof (cases "j < 8")
    case False
    with 1 show ?thesis by (simp add: key_down_done)
  next
    case True
    then have d: "drop j pk = pk ! j # drop (Suc j) pk"
      using 1 by (simp add: Cons_nth_drop_Suc)
    consider "pk ! j = 0" | "pk ! j \<noteq> 0" "pk ! j = c" | "pk ! j \<noteq> 0" "pk ! j \<noteq> c" by blast
    then show ?thesis
    proof cases
      case 1
      with True d \<open>length pk = 8\<close> show ?thesis
        by (subst key_down.simps) (simp add: key_down_done upd_conv_take_nth_drop)
    next
      case 2
      have "pk = take j pk @ pk ! j # drop (Suc j) pk"
        using True \<open>length pk = 8\<close> by (simp add: id_take_nth_drop [symmetric])
      with 2 True d show ?thesis
        by (subst key_down.simps) (simp add: key_down_done)
    next
      case 3
      with True "1.IH"(3) "1.prems"
      have "fst (key_down pk c (j + 1)) = take (j + 1) pk @ press (drop (j + 1) pk) c"
        by simp
      with 3 True d \<open>length pk = 8\<close> show ?thesis
        by (subst key_down.simps) (simp add: take_Suc_conv_app_nth)
    qed
  qed
qed

lemma key_down_j: "8 \<le> snd (key_down pk c j)"
proof (induction pk c j rule: key_down.induct)
  case (1 pk c j)
  show ?case
  proof (cases "j < 8")
    case True
    with 1 show ?thesis by (subst key_down.simps) simp
  next
    case False
    then show ?thesis by (simp add: key_down_done)
  qed
qed

lemma shift_left_spec:
  "length pk = 8 \<Longrightarrow> j \<le> 7 \<Longrightarrow> shift_left pk j = (take j pk @ drop (Suc j) pk @ [pk ! 7], 7)"
proof (induction pk j rule: shift_left.induct)
  case (1 pk j)
  show ?case
  proof (cases "j < 7")
    case False
    with 1 have "j = 7" by simp
    moreover have "take 7 pk @ [pk ! 7] = pk"
      using \<open>length pk = 8\<close> take_Suc_conv_app_nth [of 7 pk] by simp
    ultimately show ?thesis using \<open>length pk = 8\<close>
      by (subst shift_left.simps) simp
  next
    case True
    let ?pk = "pk[j := pk ! (j + 1)]"
    have "shift_left ?pk (j + 1) = (take (j + 1) ?pk @ drop (Suc (j + 1)) ?pk @ [?pk ! 7], 7)"
      using True 1 by simp
    moreover have "take (j + 1) ?pk = take j pk @ [pk ! (j + 1)]"
      using True 1 by (simp add: take_Suc_conv_app_nth)
    moreover have "drop (Suc j) pk = pk ! (j + 1) # drop (Suc (j + 1)) pk"
      using True 1 by (simp add: Cons_nth_drop_Suc)
    ultimately show ?thesis using True
      by (subst shift_left.simps) simp
  qed
qed

lemma key_up_done: "8 \<le> j \<Longrightarrow> key_up pk c j = (pk, j)"
  by (subst key_up.simps) simp

lemma key_up_release:
  "length pk = 8 \<Longrightarrow> j \<le> 8 \<Longrightarrow> key_up pk c j = (take j pk @ release (drop j pk) c, 8)"
proof (induction "8 - j" arbitrary: j)
  case 0
  then show ?case by (simp add: key_up_done)
next
  case (Suc n)
  then have j: "j < 8" by simp
  then have d: "drop j pk = pk ! j # drop (Suc j) pk"
    using Suc by (simp add: Cons_nth_drop_Suc)
  show ?case
  proof (cases "pk ! j = c")
    case True
    have "shift_left pk j = (take j pk @ drop (Suc j) pk @ [pk ! 7], 7)"
      using Suc.prems j by (simp add: shift_left_spec)
    moreover have "(take j pk @ drop (Suc j) pk @ [pk ! 7])[7 := 0] = take j pk @ drop (Suc j) pk @ [0]"
      using Suc.prems j by (simp add: list_update_append)
    ultimately show ?thesis using True j d
      by (subst key_up.simps) (simp add: key_up_done)
  next
    case False
    have "key_up pk c (Suc j) = (take (Suc j) pk @ release (drop (Suc j) pk) c, 8)"
      using Suc by simp
    with False j d Suc.prems show ?thesis
      by (subst key_up.simps) (simp add: take_Suc_conv_app_nth)
  qed
qed

section \<open>The layer\<close>

text \<open>
  C2, as amended. The layer is computed from the modifier state alone. With group 1 the
  bits 0x0022 (the shift keys), group 2 the bits 0x0300 and group 3 the bits 0x0440 of
  \<^verbatim>\<open>modifierkeys\<close>: the layer is 5 when groups 2 and 3 are both active, otherwise 4 when
  groups 1 and 2 are both active, otherwise 3, 2 or 1 when group 3, 2 or 1 is active
  (group 3 before group 2 before group 1), and 0 when no group is active. The layer that
  indexes the table for a key event is this function of the modifier state the event
  leaves, whatever the key.
\<close>

theorem neo_layer_of_modifier_state:
  "neo_layer mk =
     (if mk AND 0x0300 \<noteq> 0 \<and> mk AND 0x0440 \<noteq> 0 then 5
      else if mk AND 0x0022 \<noteq> 0 \<and> mk AND 0x0300 \<noteq> 0 then 4
      else if mk AND 0x0440 \<noteq> 0 then 3
      else if mk AND 0x0300 \<noteq> 0 then 2
      else if mk AND 0x0022 \<noteq> 0 then 1
      else 0)
   \<and> pressedkey (snd (key_tail net ev u pm md s)) =
       (if ev_value ev = 1 then
          fst (key_down (pressedkey s)
                 (snd (chars ! u ! neo_layer (modifierkeys (snd (key_tail net ev u pm md s))))) 0)
        else if ev_value ev = 0 then
          fst (key_up (pressedkey s)
                 (snd (chars ! u ! neo_layer (modifierkeys (snd (key_tail net ev u pm md s))))) 0)
        else pressedkey s)"
proof
  show "neo_layer mk =
     (if mk AND 0x0300 \<noteq> 0 \<and> mk AND 0x0440 \<noteq> 0 then 5
      else if mk AND 0x0022 \<noteq> 0 \<and> mk AND 0x0300 \<noteq> 0 then 4
      else if mk AND 0x0440 \<noteq> 0 then 3
      else if mk AND 0x0300 \<noteq> 0 then 2
      else if mk AND 0x0022 \<noteq> 0 then 1
      else 0)"
    by (rule neo_layer_groups)
next
  show "pressedkey (snd (key_tail net ev u pm md s)) =
       (if ev_value ev = 1 then
          fst (key_down (pressedkey s)
                 (snd (chars ! u ! neo_layer (modifierkeys (snd (key_tail net ev u pm md s))))) 0)
        else if ev_value ev = 0 then
          fst (key_up (pressedkey s)
                 (snd (chars ! u ! neo_layer (modifierkeys (snd (key_tail net ev u pm md s))))) 0)
        else pressedkey s)"
    by (simp add: key_tail_def keyb_send_def key_update_def Let_def send_def split: prod.splits)
qed

text \<open>
  The claim as stated fails: with the left shift key and the right alt key held
  (\<^verbatim>\<open>modifierkeys\<close> = 0x0042), groups 1 and 3 are active and group 2 is not, and the layer
  is 3, not 5.
\<close>

theorem neo_layer_groups_1_3_counterexample:
  "(0x0042 :: 32 word) AND 0x0022 \<noteq> 0 \<and> (0x0042 :: 32 word) AND 0x0440 \<noteq> 0
   \<and> (0x0042 :: 32 word) AND 0x0300 = 0 \<and> neo_layer 0x0042 = 3"
  by (simp add: neo_layer_def Let_def)

section \<open>Key codes outside the known set\<close>

text \<open>
  C3. The comment at \<^verbatim>\<open>default:\<close> says that an unknown key is ignored, but control then
  reaches the code behind the \<^verbatim>\<open>switch\<close>, which builds a keyboard report and sends it.
  Here a session is accepted, the key PRINT is released (which switches \<^verbatim>\<open>on\<close> to 1 and
  sends a report), and then the key with code 183 (\<^verbatim>\<open>KEY_F13\<close>, which has no case label)
  is pressed: a second report is sent.
\<close>

theorem unknown_key_sends_report:
  "map (\<lambda>(t, p). (t, sent (st p)))
     [main_loop (\<lambda>n. 11) pass
        [\<lparr>it_drain1 = [], it_accept = Accepted, it_drain2 = [],
          it_session = [[Read_event \<lparr>ev_type = EV_KEY, ev_code = KEY_SYSRQ, ev_value = 0\<rparr>]]\<rparr>]
        (init_process False 0),
      main_loop (\<lambda>n. 11) pass
        [\<lparr>it_drain1 = [], it_accept = Accepted, it_drain2 = [],
          it_session = [[Read_event \<lparr>ev_type = EV_KEY, ev_code = KEY_SYSRQ, ev_value = 0\<rparr>],
                        [Read_event \<lparr>ev_type = EV_KEY, ev_code = 183, ev_value = 1\<rparr>]]\<rparr>]
        (init_process False 0)]
   = [(Waiting, [[0xA1, 2, 0, 0, 0, 0, 0, 0, 0, 0, 0]]),
      (Waiting, [[0xA1, 2, 0, 0, 0, 0, 0, 0, 0, 0, 0], [0xA1, 2, 0, 0, 0, 0, 0, 0, 0, 0, 0]])]"
  by code_simp

section \<open>The form of the array of pressed keys\<close>


lemma press_zero: "press pk 0 = pk"
  by (induction pk) auto

lemma held_append_zeros: "0 \<notin> set ks \<Longrightarrow> held (ks @ replicate m 0) = ks"
  by (induction ks) (auto simp: held_def)

lemma wf_pressedI:
  "length ks \<le> 8 \<Longrightarrow> 0 \<notin> set ks \<Longrightarrow> distinct ks \<Longrightarrow> wf_pressed (ks @ replicate (8 - length ks) 0)"
  by (simp add: wf_pressed_def held_append_zeros)

lemma wf_pressedD:
  assumes "wf_pressed pk"
  shows "pk = held pk @ replicate (8 - length (held pk)) 0" and "length (held pk) \<le> 8"
    and "0 \<notin> set (held pk)" and "distinct (held pk)" and "length pk = 8"
proof -
  show "pk = held pk @ replicate (8 - length (held pk)) 0" "distinct (held pk)" "length pk = 8"
    using assms by (simp_all add: wf_pressed_def)
  show "0 \<notin> set (held pk)" by (simp add: held_def)
  have "length (held pk) \<le> length pk" by (simp add: held_def)
  with \<open>length pk = 8\<close> show "length (held pk) \<le> 8" by simp
qed

lemma press_prefix:
  "0 \<notin> set ks \<Longrightarrow> press (ks @ zs) c = (if c \<in> set ks then ks @ zs else ks @ press zs c)"
  by (induction ks) auto

lemma press_zeros: "press (replicate m 0) c = (case m of 0 \<Rightarrow> [] | Suc k \<Rightarrow> c # replicate k 0)"
  by (cases m) auto

lemma release_prefix:
  "release (ks @ zs) c = (if c \<in> set ks then remove1 c ks @ zs @ [0] else ks @ release zs c)"
  by (induction ks) auto

lemma release_zeros: "release (replicate m 0) c = replicate m 0"
  by (induction m) (auto simp: replicate_append_same)

lemma key_down_wf:
  assumes "wf_pressed pk"
  shows "wf_pressed (fst (key_down pk c 0))
    \<and> held (fst (key_down pk c 0)) =
        (if c = 0 \<or> c \<in> set (held pk) \<or> length (held pk) = 8 then held pk else held pk @ [c])"
proof -
  let ?ks = "held pk"
  note d = wf_pressedD [OF assms]
  have kd: "fst (key_down pk c 0) = press pk c"
    using key_down_press [of pk 0 c] d(5) by simp
  have p: "press pk c = (if c \<in> set ?ks then pk else ?ks @ press (replicate (8 - length ?ks) 0) c)"
    using press_prefix [OF d(3), of "replicate (8 - length ?ks) 0" c] d(1) by simp
  show ?thesis
  proof (cases "c = 0 \<or> c \<in> set ?ks \<or> length ?ks = 8")
    case True
    then consider "c = 0" | "c \<in> set ?ks" | "c \<notin> set ?ks" "length ?ks = 8" by blast
    then have "press pk c = pk"
    proof cases
      case 1 then show ?thesis by (simp add: press_zero)
    next
      case 2 with p show ?thesis by simp
    next
      case 3 with p d(1) show ?thesis by simp
    qed
    with True kd assms show ?thesis by simp
  next
    case False
    then have c: "c \<noteq> 0" "c \<notin> set ?ks" and l: "length ?ks < 8" using d(2) by auto
    then obtain k where k: "8 - length ?ks = Suc k" by (cases "8 - length ?ks") auto
    with p c have e: "press pk c = (?ks @ [c]) @ replicate (8 - length (?ks @ [c])) 0"
      by (simp add: press_zeros) 
    have "wf_pressed ((?ks @ [c]) @ replicate (8 - length (?ks @ [c])) 0)"
      using c d l by (intro wf_pressedI) auto
    moreover have "held ((?ks @ [c]) @ replicate (8 - length (?ks @ [c])) 0) = ?ks @ [c]"
      using c d by (intro held_append_zeros) auto
    ultimately show ?thesis using False kd e by simp
  qed
qed

lemma key_up_wf:
  assumes "wf_pressed pk"
  shows "wf_pressed (fst (key_up pk c 0)) \<and> held (fst (key_up pk c 0)) = remove1 c (held pk)"
proof -
  let ?ks = "held pk"
  note d = wf_pressedD [OF assms]
  have ku: "fst (key_up pk c 0) = release pk c"
    using key_up_release [of pk 0 c] d(5) by simp
  have r: "release pk c = (if c \<in> set ?ks then remove1 c ?ks @ replicate (8 - length ?ks) 0 @ [0] else pk)"
    using release_prefix [of ?ks "replicate (8 - length ?ks) 0" c] d(1) by (simp add: release_zeros)
  show ?thesis
  proof (cases "c \<in> set ?ks")
    case False
    with r ku assms show ?thesis by (simp add: remove1_idem)
  next
    case True
    then have l: "length (remove1 c ?ks) = length ?ks - 1" "length ?ks > 0"
      by (auto simp: length_remove1)
    have "Suc (8 - length ?ks) = 8 - length (remove1 c ?ks)"
      using l d(2) by arith
    then have "replicate (8 - length ?ks) 0 @ [0 :: byte] = replicate (8 - length (remove1 c ?ks)) 0"
      by (metis replicate_Suc replicate_append_same)
    with r True have e: "release pk c = remove1 c ?ks @ replicate (8 - length (remove1 c ?ks)) 0"
      by simp
    have "wf_pressed (remove1 c ?ks @ replicate (8 - length (remove1 c ?ks)) 0)"
      using d l by (intro wf_pressedI) (auto dest: notin_set_remove1)
    moreover have "held (remove1 c ?ks @ replicate (8 - length (remove1 c ?ks)) 0) = remove1 c ?ks"
      using d by (intro held_append_zeros) (auto dest: notin_set_remove1)
    ultimately show ?thesis using ku e by simp
  qed
qed

section \<open>What sending and the key update change\<close>


lemma send_fields [simp]:
  "sent (send net pkt s) = sent s @ [pkt]"
  "loc_j (send net pkt s) = net (length (sent s))"
  "modifierkeys (send net pkt s) = modifierkeys s"
  "pressedkey (send net pkt s) = pressedkey s"
  "mousebuttons (send net pkt s) = mousebuttons s"
  "on (send net pkt s) = on s"
  "connectionok (send net pkt s) = connectionok s"
  "hidrep (send net pkt s) = hidrep s"
  "prepareshutdown (send net pkt s) = prepareshutdown s"
  "stop_writing (send net pkt s) = stop_writing s"
  "id_x11 (send net pkt s) = id_x11 s"
  "result_alloc (send net pkt s) = result_alloc s"
  "xinput (send net pkt s) = xinput s"
  by (simp_all add: send_def)

lemma keyb_send_fields [simp]:
  "modifierkeys (snd (keyb_send net s)) = modifierkeys s"
  "pressedkey (snd (keyb_send net s)) = pressedkey s"
  "mousebuttons (snd (keyb_send net s)) = mousebuttons s"
  "on (snd (keyb_send net s)) = on s"
  "connectionok (snd (keyb_send net s)) = connectionok s"
  "hidrep (snd (keyb_send net s)) = hidrep s"
  "prepareshutdown (snd (keyb_send net s)) = prepareshutdown s"
  "stop_writing (snd (keyb_send net s)) = stop_writing s"
  "id_x11 (snd (keyb_send net s)) = id_x11 s"
  "result_alloc (snd (keyb_send net s)) = result_alloc s"
  "xinput (snd (keyb_send net s)) = xinput s"
  by (simp_all add: keyb_send_def Let_def)

lemma keyb_send_sent:
  "sent (snd (keyb_send net s)) = sent s @ (if connectionok s \<and> on s then [hidrep s] else [])"
  by (simp add: keyb_send_def Let_def)

lemma mouse_send_fields [simp]:
  "modifierkeys (snd (mouse_send net s)) = modifierkeys s"
  "pressedkey (snd (mouse_send net s)) = pressedkey s"
  "mousebuttons (snd (mouse_send net s)) = mousebuttons s"
  "on (snd (mouse_send net s)) = on s"
  "connectionok (snd (mouse_send net s)) = connectionok s"
  "hidrep (snd (mouse_send net s)) = hidrep s"
  "prepareshutdown (snd (mouse_send net s)) = prepareshutdown s"
  "stop_writing (snd (mouse_send net s)) = stop_writing s"
  "id_x11 (snd (mouse_send net s)) = id_x11 s"
  "result_alloc (snd (mouse_send net s)) = result_alloc s"
  "xinput (snd (mouse_send net s)) = xinput s"
  by (simp_all add: mouse_send_def Let_def)

lemma mouse_send_sent:
  "sent (snd (mouse_send net s)) = sent s @ (if connectionok s then [hidrep s] else [])"
  by (simp add: mouse_send_def Let_def)

lemma key_update_fields [simp]:
  "modifierkeys (key_update ev u pm md s) =
     (if 1 \<le> sint (ev_value ev) then (modifierkeys s AND (0xffff - pm)) OR pm
      else modifierkeys s AND (0xffff - pm))"
  "mousebuttons (key_update ev u pm md s) = mousebuttons s"
  "on (key_update ev u pm md s) = on s"
  "connectionok (key_update ev u pm md s) = connectionok s"
  "prepareshutdown (key_update ev u pm md s) = prepareshutdown s"
  "stop_writing (key_update ev u pm md s) = stop_writing s"
  "id_x11 (key_update ev u pm md s) = id_x11 s"
  "result_alloc (key_update ev u pm md s) = result_alloc s"
  "xinput (key_update ev u pm md s) = xinput s"
  "sent (key_update ev u pm md s) = sent s"
  by (simp_all add: key_update_def Let_def)

lemma key_update_pressedkey:
  "pressedkey (key_update ev u pm md s) =
     (if ev_value ev = 1 then
        fst (key_down (pressedkey s)
               (snd (chars ! u ! neo_layer (modifierkeys (key_update ev u pm md s)))) 0)
      else if ev_value ev = 0 then
        fst (key_up (pressedkey s)
               (snd (chars ! u ! neo_layer (modifierkeys (key_update ev u pm md s)))) 0)
      else pressedkey s)"
  by (simp add: key_update_def Let_def split: prod.splits)

lemma key_update_hidrep:
  "hidrep (key_update ev u pm md s) =
     keyb_report
       (if snd (chars ! u ! neo_layer (modifierkeys (key_update ev u pm md s))) \<noteq> 0
        then fst (chars ! u ! neo_layer (modifierkeys (key_update ev u pm md s)))
        else if pm AND 0x8000 \<noteq> 0 then ucast (modifierkeys (key_update ev u pm md s)) else md)
       (pressedkey (key_update ev u pm md s))"
  by (simp add: key_update_def Let_def split: prod.splits)

lemma key_up_j: "8 \<le> snd (key_up pk c j)"
proof (induction pk c j rule: key_up.induct)
  case (1 pk c j)
  show ?case
  proof (cases "j < 8")
    case True
    with 1 show ?thesis by (subst key_up.simps) (auto split: prod.splits)
  next
    case False
    then show ?thesis by (simp add: key_up_done)
  qed
qed

lemma key_update_loc_j:
  assumes "1 \<le> loc_j s"
  shows "1 \<le> loc_j (key_update ev u pm md s)"
proof -
  have "1 \<le> int (snd (key_down pk c 0))" for pk c
    using key_down_j [of pk c 0] by simp
  moreover have "1 \<le> int (snd (key_up pk c 0))" for pk c
    using key_up_j [of pk c 0] by simp
  ultimately show ?thesis using assms
    by (simp add: key_update_def Let_def case_prod_beta)
qed

section \<open>Keys without a character on the layer\<close>


lemma release_zero_wf: "wf_pressed pk \<Longrightarrow> fst (key_up pk 0 0) = pk"
proof -
  assume w: "wf_pressed pk"
  note d = wf_pressedD [OF w]
  have "release pk 0 = pk"
    using release_prefix [of "held pk" "replicate (8 - length (held pk)) 0" 0] d(1) d(3)
    by (simp add: release_zeros)
  then show ?thesis using key_up_release [of pk 0 0] d(5) by simp
qed

lemma press_zero_wf: "wf_pressed pk \<Longrightarrow> fst (key_down pk 0 0) = pk"
  using key_down_press [of pk 0 0] by (simp add: press_zero wf_pressed_def)

text \<open>
  C5, as amended. For a key event that goes straight to the code behind the \<^verbatim>\<open>switch\<close>
  (any key but the mouse buttons and PRINT) and whose table entry at its key index and
  the layer of the modifier state is the usage 0: the keyboard report built has the low
  byte of \<^verbatim>\<open>modifierkeys\<close> as its modifier byte when the key is one of the five control,
  alt and meta keys that carry the bit 0x8000, and the modifier byte 0 for every other
  key; and the array of pressed keys, when it has the form \<open>wf_pressed\<close> before the
  event, is the same after it.
\<close>

theorem unmapped_key_report:
  assumes "ev_type ev = EV_KEY"
    and "ev_code ev \<noteq> BTN_LEFT" and "ev_code ev \<noteq> BTN_RIGHT" and "ev_code ev \<noteq> BTN_MIDDLE"
    and "ev_code ev \<noteq> KEY_SYSRQ"
    and "handle_event net pass ev s = (r, s')"
    and "snd (chars ! key_u (ev_code ev) ! neo_layer (modifierkeys s')) = 0"
  shows "hidrep s' =
           keyb_report (if pressedmod_of (ev_code ev) AND 0x8000 \<noteq> 0
                        then ucast (modifierkeys s') else 0) (pressedkey s')
         \<and> (wf_pressed (pressedkey s) \<longrightarrow> pressedkey s' = pressedkey s)"
proof -
  let ?s0 = "s\<lparr>loc_j := sizeof_input_event\<rparr>"
  let ?k = "key_update ev (key_u (ev_code ev)) (pressedmod_of (ev_code ev)) 0 ?s0"
  have "handle_event net pass ev s = keyb_send net ?k"
    using assms(1-5) by (simp add: handle_event_def key_event_def key_tail_def)
  with assms(6) have s': "s' = snd (keyb_send net ?k)" by simp
  then have mk: "modifierkeys s' = modifierkeys ?k" by simp
  have c0: "snd (chars ! key_u (ev_code ev) ! neo_layer (modifierkeys ?k)) = 0"
    using assms(7) mk by simp
  have "hidrep s' = hidrep ?k" "pressedkey s' = pressedkey ?k" using s' by simp_all
  moreover have "hidrep ?k = keyb_report (if pressedmod_of (ev_code ev) AND 0x8000 \<noteq> 0
                        then ucast (modifierkeys ?k) else 0) (pressedkey ?k)"
    by (subst key_update_hidrep) (simp only: c0 if_False simp_thms)
  moreover have "pressedkey ?k = pressedkey s" if "wf_pressed (pressedkey s)"
    by (subst key_update_pressedkey, simp only: c0)
       (simp add: release_zero_wf press_zero_wf that)
  ultimately show ?thesis using mk by simp
qed


text \<open>
  The claim as stated fails. A session is accepted and PRINT is released (so that
  reports are sent); left control and left shift are pressed, then TAB, whose entry on
  layer 1 is the usage 0. The modifier state is 0x8003, its low byte 0x03, but the
  report sent for TAB has the modifier byte 0.
\<close>

lemma run_ctrl_shift_tab:
  "main_loop (\<lambda>n. 11) []
     [\<lparr>it_drain1 = [], it_accept = Accepted, it_drain2 = [],
       it_session = [[Read_event \<lparr>ev_type = EV_KEY, ev_code = KEY_SYSRQ, ev_value = 0\<rparr>],
                     [Read_event \<lparr>ev_type = EV_KEY, ev_code = KEY_LEFTCTRL, ev_value = 1\<rparr>],
                     [Read_event \<lparr>ev_type = EV_KEY, ev_code = KEY_LEFTSHIFT, ev_value = 1\<rparr>],
                     [Read_event \<lparr>ev_type = EV_KEY, ev_code = KEY_TAB, ev_value = 1\<rparr>]]\<rparr>]
     (init_process False 0)
   = (Waiting,
      \<lparr>st = \<lparr>prepareshutdown = 0, mousebuttons = 0, modifierkeys = 0x8003,
              pressedkey = [0, 0, 0, 0, 0, 0, 0, 0], connectionok = True, on = True,
              stop_writing = False, id_x11 = 0, result_alloc = False, loc_j = 11,
              hidrep = [0xA1, 2, 0, 0, 0, 0, 0, 0, 0, 0, 0],
              sent = [[0xA1, 2, 0x00, 0, 0, 0, 0, 0, 0, 0, 0],
                      [0xA1, 2, 0x01, 0, 0, 0, 0, 0, 0, 0, 0],
                      [0xA1, 2, 0x00, 0, 0, 0, 0, 0, 0, 0, 0],
                      [0xA1, 2, 0x00, 0, 0, 0, 0, 0, 0, 0, 0]],
              xinput = []\<rparr>,
        ctl_chan_open = True, int_chan_open = True, listening = True,
        sdp_registered = True, evdevs_open = True\<rparr>)"
  by code_simp

theorem unmapped_key_modifier_counterexample:
  "(\<lambda>s. (modifierkeys s, (ucast (modifierkeys s) :: byte),
          snd (chars ! key_u KEY_TAB ! neo_layer (modifierkeys s)), pressedkey s, last (sent s)))
     (st (snd (main_loop (\<lambda>n. 11) []
        [\<lparr>it_drain1 = [], it_accept = Accepted, it_drain2 = [],
          it_session = [[Read_event \<lparr>ev_type = EV_KEY, ev_code = KEY_SYSRQ, ev_value = 0\<rparr>],
                        [Read_event \<lparr>ev_type = EV_KEY, ev_code = KEY_LEFTCTRL, ev_value = 1\<rparr>],
                        [Read_event \<lparr>ev_type = EV_KEY, ev_code = KEY_LEFTSHIFT, ev_value = 1\<rparr>],
                        [Read_event \<lparr>ev_type = EV_KEY, ev_code = KEY_TAB, ev_value = 1\<rparr>]]\<rparr>]
        (init_process False 0))))
   = (0x8003, 0x03, 0, [0, 0, 0, 0, 0, 0, 0, 0], [0xA1, 2, 0x00, 0, 0, 0, 0, 0, 0, 0, 0])"
  unfolding run_ctrl_shift_tab by code_simp

theorem unmapped_key_report_witness:
  "ev_type \<lparr>ev_type = EV_KEY, ev_code = KEY_TAB, ev_value = 1\<rparr> = EV_KEY
   \<and> snd (chars ! key_u KEY_TAB ! neo_layer 0x8003) = 0
   \<and> wf_pressed [0x18, 0, 0, 0, 0, 0, 0, 0]
   \<and> hidrep (snd (handle_event (\<lambda>n. 11) [] \<lparr>ev_type = EV_KEY, ev_code = KEY_TAB, ev_value = 1\<rparr>
         (init_state\<lparr>connectionok := True, on := True, modifierkeys := 0x8003,
                      pressedkey := [0x18, 0, 0, 0, 0, 0, 0, 0]\<rparr>)))
       = keyb_report 0 [0x18, 0, 0, 0, 0, 0, 0, 0]
   \<and> pressedkey (snd (handle_event (\<lambda>n. 11) [] \<lparr>ev_type = EV_KEY, ev_code = KEY_TAB, ev_value = 1\<rparr>
         (init_state\<lparr>connectionok := True, on := True, modifierkeys := 0x8003,
                      pressedkey := [0x18, 0, 0, 0, 0, 0, 0, 0]\<rparr>)))
       = [0x18, 0, 0, 0, 0, 0, 0, 0]"
proof -
  let ?ev = "\<lparr>ev_type = EV_KEY, ev_code = KEY_TAB, ev_value = 1\<rparr>"
  let ?s = "init_state\<lparr>connectionok := True, on := True, modifierkeys := 0x8003,
                      pressedkey := [0x18, 0, 0, 0, 0, 0, 0, 0]\<rparr>"
  let ?h = "handle_event (\<lambda>n. 11) [] ?ev ?s"
  have m: "modifierkeys (snd ?h) = 0x8003" by code_simp
  have c: "snd (chars ! key_u KEY_TAB ! neo_layer 0x8003) = 0" by code_simp
  have w: "wf_pressed [0x18, 0, 0, 0, 0, 0, 0, 0]" by code_simp
  have pm: "pressedmod_of KEY_TAB AND 0x8000 = 0" by code_simp
  have "hidrep (snd ?h) =
           keyb_report (if pressedmod_of (ev_code ?ev) AND 0x8000 \<noteq> 0
                        then ucast (modifierkeys (snd ?h)) else 0) (pressedkey (snd ?h))
         \<and> (wf_pressed (pressedkey ?s) \<longrightarrow> pressedkey (snd ?h) = pressedkey ?s)"
    by (rule unmapped_key_report [where r = "fst ?h"]) (simp_all add: m c)
  with w pm c show ?thesis by simp
qed

section \<open>Mouse buttons and relative movement\<close>


lemma button_update_fields [simp]:
  "modifierkeys (button_update ev s) = modifierkeys s"
  "pressedkey (button_update ev s) = pressedkey s"
  "on (button_update ev s) = on s"
  "connectionok (button_update ev s) = connectionok s"
  "prepareshutdown (button_update ev s) = prepareshutdown s"
  "stop_writing (button_update ev s) = stop_writing s"
  "id_x11 (button_update ev s) = id_x11 s"
  "result_alloc (button_update ev s) = result_alloc s"
  "xinput (button_update ev s) = xinput s"
  "sent (button_update ev s) = sent s"
  "loc_j (button_update ev s) = loc_j s"
  "hidrep (button_update ev s) = mouse_report (mousebuttons (button_update ev s) AND 0x07) 0 0 0"
  by (simp_all add: button_update_def Let_def)

lemma rel_update_fields [simp]:
  "modifierkeys (rel_update ev s) = modifierkeys s"
  "pressedkey (rel_update ev s) = pressedkey s"
  "mousebuttons (rel_update ev s) = mousebuttons s"
  "on (rel_update ev s) = on s"
  "connectionok (rel_update ev s) = connectionok s"
  "prepareshutdown (rel_update ev s) = prepareshutdown s"
  "stop_writing (rel_update ev s) = stop_writing s"
  "id_x11 (rel_update ev s) = id_x11 s"
  "result_alloc (rel_update ev s) = result_alloc s"
  "xinput (rel_update ev s) = xinput s"
  "sent (rel_update ev s) = sent s"
  "loc_j (rel_update ev s) = loc_j s"
  by (simp_all add: rel_update_def)

lemma button_left_mask:
  "ev_code ev = BTN_LEFT \<Longrightarrow> mousebuttons (button_update ev s) =
     (if ev_value ev = 1 then mousebuttons s AND 6 OR 1 else mousebuttons s AND 6)"
  by (simp add: button_update_def Let_def)

lemma button_right_mask:
  "ev_code ev = BTN_RIGHT \<Longrightarrow> mousebuttons (button_update ev s) =
     (if ev_value ev = 1 then mousebuttons s AND 5 OR 2 else mousebuttons s AND 5)"
  by (simp add: button_update_def Let_def)

lemma button_middle_mask:
  "ev_code ev = BTN_MIDDLE \<Longrightarrow> mousebuttons (button_update ev s) =
     (if ev_value ev = 1 then mousebuttons s AND 3 OR 4 else mousebuttons s AND 3)"
  by (simp add: button_update_def Let_def)

lemma button_bits:
  assumes "ev_code ev = BTN_LEFT \<or> ev_code ev = BTN_RIGHT \<or> ev_code ev = BTN_MIDDLE" and "n < 3"
  shows "bit (mousebuttons (button_update ev s)) n
         = (if n = unat (ev_code ev AND 3) then ev_value ev = 1 else bit (mousebuttons s) n)"
proof -
  from \<open>n < 3\<close> have n: "n = 0 \<or> n = Suc 0 \<or> n = 2" by auto
  from assms(1) consider (l) "ev_code ev = BTN_LEFT" | (r) "ev_code ev = BTN_RIGHT"
    | (m) "ev_code ev = BTN_MIDDLE" by blast
  then show ?thesis
  proof cases
    case l
    then have u: "unat (ev_code ev AND 3) = 0" by simp
    from n show ?thesis
      by (elim disjE) (simp_all add: button_left_mask [OF l] u bit_and_iff bit_or_iff)
  next
    case r
    then have u: "unat (ev_code ev AND 3) = Suc 0" by simp
    from n show ?thesis
      by (elim disjE) (simp_all add: button_right_mask [OF r] u bit_and_iff bit_or_iff)
  next
    case m
    then have u: "unat (ev_code ev AND 3) = 2" by simp
    from n show ?thesis
      by (elim disjE) (simp_all add: button_middle_mask [OF m] u bit_and_iff bit_or_iff)
  qed
qed

lemma is_mouse_report_simps [simp]:
  "is_mouse_report (mouse_report b x y z)" "\<not> is_mouse_report (keyb_report m pk)"
  "is_keyb_report (keyb_report m pk) = (8 \<le> length pk)" "\<not> is_keyb_report (mouse_report b x y z)"
  by (auto simp add: is_mouse_report_def is_keyb_report_def mouse_report_def keyb_report_def)

lemma button_event:
  assumes "ev_type ev = EV_KEY"
    and "ev_code ev = BTN_LEFT \<or> ev_code ev = BTN_RIGHT \<or> ev_code ev = BTN_MIDDLE"
  shows "handle_event net pass ev s =
     (if \<not> connectionok s
      then keyb_send net (key_update ev 1 0 0 (button_update ev (s\<lparr>loc_j := sizeof_input_event\<rparr>)))
      else if 1 > net (length (sent s))
      then (Return (- 1), send net (hidrep (button_update ev s))
                            (button_update ev (s\<lparr>loc_j := sizeof_input_event\<rparr>)))
      else keyb_send net (key_update ev 1 0 0
             (send net (hidrep (button_update ev s))
                (button_update ev (s\<lparr>loc_j := sizeof_input_event\<rparr>)))))"
  using assms
  by (simp add: handle_event_def key_event_def mouse_button_def mouse_send_def key_tail_def Let_def
      button_update_def)

lemma button_event_mousebuttons:
  assumes "ev_type ev = EV_KEY"
    and "ev_code ev = BTN_LEFT \<or> ev_code ev = BTN_RIGHT \<or> ev_code ev = BTN_MIDDLE"
  shows "mousebuttons (snd (handle_event net pass ev s)) = mousebuttons (button_update ev s)"
  by (simp add: button_event [OF assms]) (simp add: button_update_def Let_def)

lemma button_event_sent:
  assumes "ev_type ev = EV_KEY"
    and "ev_code ev = BTN_LEFT \<or> ev_code ev = BTN_RIGHT \<or> ev_code ev = BTN_MIDDLE"
  shows "sent (snd (handle_event net pass ev s)) =
     sent s @ (if connectionok s
               then hidrep (button_update ev s) #
                    (if 1 \<le> net (length (sent s)) \<and> on s
                     then [hidrep (key_update ev 1 0 0
                             (send net (hidrep (button_update ev s))
                                (button_update ev (s\<lparr>loc_j := sizeof_input_event\<rparr>))))]
                     else [])
               else [])"
  by (simp add: button_event [OF assms] keyb_send_sent)

lemma rel_event_handled:
  assumes "ev_type ev = EV_REL"
    and "ev_code ev = ABS_X \<or> ev_code ev = ABS_Y \<or> ev_code ev = ABS_Z \<or> ev_code ev = REL_WHEEL"
  shows "handle_event net pass ev s = mouse_send net (rel_update ev (s\<lparr>loc_j := sizeof_input_event\<rparr>))"
  using assms by (simp add: handle_event_def rel_event_def)

section \<open>The terminate key\<close>


lemma terminate_key:
  assumes "ev_type ev = EV_KEY" and "ev_code ev = KEY_SYSRQ" and "ev_value ev = 0"
    and "modifierkeys s AND 0x1 = 0x1"
  shows "handle_event net pass ev s =
     (if connectionok s
      then (if result_alloc s then Exit 0 else Fault,
            (send net (keyb_report 0 (replicate 8 0))
               (s\<lparr>loc_j := sizeof_input_event, hidrep := keyb_report 0 (replicate 8 0)\<rparr>))
            \<lparr>xinput := xinput s @ (if result_alloc s then [(id_x11 s, True)] else [])\<rparr>)
      else (if result_alloc s then Exit 0 else Fault,
            s\<lparr>loc_j := sizeof_input_event,
              xinput := xinput s @ (if result_alloc s then [(id_x11 s, True)] else [])\<rparr>))"
  using assms by (simp add: handle_event_def key_event_def sysrq_key_def Let_def)




section \<open>The order of the packets sent\<close>


lemma sends_ok_iff: "sends_ok net a b \<longleftrightarrow> (\<forall>n. a \<le> n \<and> n < b \<longrightarrow> 1 \<le> net n)"
  by (auto simp add: sends_ok_def list_all_iff)

lemma sends_ok_empty [simp]: "b \<le> a \<Longrightarrow> sends_ok net a b"
  by (simp add: sends_ok_iff)

lemma sends_ok_Suc: "sends_ok net a (Suc a) = (1 \<le> net a)"
  by (auto simp add: sends_ok_iff le_less_Suc_eq)

lemma orderly_same_sent: "sent s' = sent s \<Longrightarrow> orderly net s r s'"
  by (simp add: orderly_def)

lemma orderly_from: "sent s0 = sent s \<Longrightarrow> orderly net s r s' \<Longrightarrow> orderly net s0 r s'"
  by (simp add: orderly_def)

lemma orderly_trans:
  assumes "orderly net s Continue s1" and "orderly net s1 r s2"
  shows "orderly net s r s2"
proof -
  from assms(1) have a: "length (sent s) \<le> length (sent s1)"
    and ok1: "\<forall>n. length (sent s) \<le> n \<and> n < length (sent s1) \<longrightarrow> 1 \<le> net n"
    by (auto simp add: orderly_def sends_ok_iff)
  from assms(2) have b: "length (sent s1) \<le> length (sent s2)"
    and ok2: "\<forall>n. length (sent s1) \<le> n \<and> n < length (sent s2) - 1 \<longrightarrow> 1 \<le> net n"
    and r: "(\<forall>n. length (sent s1) \<le> n \<and> n < length (sent s2) \<longrightarrow> 1 \<le> net n)
            \<or> r = Return (- 1) \<or> r = Exit 0 \<or> r = Fault"
    by (auto simp add: orderly_def sends_ok_iff)
  have "1 \<le> net n" if "length (sent s) \<le> n" "n < length (sent s2) - 1" for n
    using that ok1 ok2 by (cases "n < length (sent s1)") auto
  moreover have "(\<forall>n. length (sent s) \<le> n \<and> n < length (sent s2) \<longrightarrow> 1 \<le> net n)
            \<or> r = Return (- 1) \<or> r = Exit 0 \<or> r = Fault"
  proof (cases "\<forall>n. length (sent s1) \<le> n \<and> n < length (sent s2) \<longrightarrow> 1 \<le> net n")
    case True
    have "1 \<le> net n" if "length (sent s) \<le> n" "n < length (sent s2)" for n
      using that ok1 True by (cases "n < length (sent s1)") auto
    then show ?thesis by blast
  next
    case False
    with r show ?thesis by blast
  qed
  ultimately show ?thesis using a b by (simp add: orderly_def sends_ok_iff)
qed

lemma keyb_send_orderly: "orderly net s (fst (keyb_send net s)) (snd (keyb_send net s))"
  by (simp add: keyb_send_def Let_def orderly_def sends_ok_Suc)

lemma mouse_send_orderly: "orderly net s (fst (mouse_send net s)) (snd (mouse_send net s))"
  by (simp add: mouse_send_def Let_def orderly_def sends_ok_Suc)

lemma key_tail_orderly: "orderly net s (fst (key_tail net ev u pm md s)) (snd (key_tail net ev u pm md s))"
  unfolding key_tail_def
  by (rule orderly_from [OF _ keyb_send_orderly]) simp

lemma mouse_button_orderly: "orderly net s (fst (mouse_button net ev s)) (snd (mouse_button net ev s))"
  unfolding mouse_button_def
  by (rule orderly_from [OF _ mouse_send_orderly]) simp

lemma pass_loop_orderly:
  "orderly net s (fst (pass_loop net pass md s)) (snd (snd (pass_loop net pass md s)))"
proof (induction pass arbitrary: md s)
  case Nil
  show ?case by (simp add: orderly_same_sent)
next
  case (Cons p ps)
  let ?s2 = "s\<lparr>pressedkey := (pressedkey s)[0 := snd p],
               hidrep := keyb_report (fst p) ((pressedkey s)[0 := snd p])\<rparr>"
  have s2: "sent ?s2 = sent s" by simp
  show ?case
  proof (cases "connectionok s")
    case False
    then show ?thesis by (simp add: Let_def orderly_same_sent)
  next
    case True
    note k = keyb_send_orderly [of net ?s2]
    show ?thesis
    proof (cases "fst (keyb_send net ?s2) = Continue")
      case c: True
      then obtain s3 where e: "keyb_send net ?s2 = (Continue, s3)"
        by (cases "keyb_send net ?s2") simp
      from k e have "orderly net ?s2 Continue s3" by simp
      then have "orderly net ?s2 (fst (pass_loop net ps (fst p) s3))
              (snd (snd (pass_loop net ps (fst p) s3)))"
        by (rule orderly_trans) (rule Cons.IH)
      then have "orderly net s (fst (pass_loop net ps (fst p) s3))
              (snd (snd (pass_loop net ps (fst p) s3)))"
        by (rule orderly_from [OF s2 [symmetric]])
      then show ?thesis using True by (simp add: Let_def e)
    next
      case n: False
      obtain r s3 where e: "keyb_send net ?s2 = (r, s3)" by (cases "keyb_send net ?s2")
      with n have "r \<noteq> Continue" by simp
      moreover from k e have "orderly net s r s3" using orderly_from [OF s2 [symmetric]] by simp
      ultimately show ?thesis using True e by (cases r) (simp_all add: Let_def)
    qed
  qed
qed

lemma pass_loop_frame:
  "(connectionok (snd (snd (pass_loop net pass md s))), prepareshutdown (snd (snd (pass_loop net pass md s))),
    on (snd (snd (pass_loop net pass md s))), stop_writing (snd (snd (pass_loop net pass md s))),
    id_x11 (snd (snd (pass_loop net pass md s))), result_alloc (snd (snd (pass_loop net pass md s))),
    xinput (snd (snd (pass_loop net pass md s))), modifierkeys (snd (snd (pass_loop net pass md s))),
    mousebuttons (snd (snd (pass_loop net pass md s))))
   = (connectionok s, prepareshutdown s, on s, stop_writing s, id_x11 s, result_alloc s,
      xinput s, modifierkeys s, mousebuttons s)"
proof (induction pass arbitrary: md s)
  case Nil
  show ?case by simp
next
  case (Cons p ps)
  let ?s2 = "s\<lparr>pressedkey := (pressedkey s)[0 := snd p],
               hidrep := keyb_report (fst p) ((pressedkey s)[0 := snd p])\<rparr>"
  obtain r s3 where e: "keyb_send net ?s2 = (r, s3)" by (cases "keyb_send net ?s2")
  then have s3: "s3 = snd (keyb_send net ?s2)" by simp
  have f: "(connectionok s3, prepareshutdown s3, on s3, stop_writing s3, id_x11 s3, result_alloc s3,
      xinput s3, modifierkeys s3, mousebuttons s3)
     = (connectionok s, prepareshutdown s, on s, stop_writing s, id_x11 s, result_alloc s,
      xinput s, modifierkeys s, mousebuttons s)"
    unfolding s3 by simp
  show ?case
  proof (cases "connectionok s")
    case False
    then show ?thesis by (simp add: Let_def)
  next
    case True
    show ?thesis
    proof (cases r)
      case Continue
      with True e show ?thesis using Cons.IH [where md = "fst p" and s = s3] f
        by (simp add: Let_def)
    next
      case (Return x2)
      with True e f show ?thesis by (simp add: Let_def)
    next
      case (Exit x3)
      with True e f show ?thesis by (simp add: Let_def)
    next
      case Fault
      with True e f show ?thesis by (simp add: Let_def)
    qed
  qed
qed

lemma pass_loop_fields [simp]:
  "connectionok (snd (snd (pass_loop net pass md s))) = connectionok s"
  "prepareshutdown (snd (snd (pass_loop net pass md s))) = prepareshutdown s"
  "on (snd (snd (pass_loop net pass md s))) = on s"
  "stop_writing (snd (snd (pass_loop net pass md s))) = stop_writing s"
  "id_x11 (snd (snd (pass_loop net pass md s))) = id_x11 s"
  "result_alloc (snd (snd (pass_loop net pass md s))) = result_alloc s"
  "xinput (snd (snd (pass_loop net pass md s))) = xinput s"
  "modifierkeys (snd (snd (pass_loop net pass md s))) = modifierkeys s"
  "mousebuttons (snd (snd (pass_loop net pass md s))) = mousebuttons s"
  using pass_loop_frame [of net pass md s] by simp_all

lemma pass_loop_outcome:
  "fst (pass_loop net pass md s) = Continue \<or> fst (pass_loop net pass md s) = Return (- 1)"
proof (induction pass arbitrary: md s)
  case Nil
  show ?case by simp
next
  case (Cons p ps)
  let ?s2 = "s\<lparr>pressedkey := (pressedkey s)[0 := snd p],
               hidrep := keyb_report (fst p) ((pressedkey s)[0 := snd p])\<rparr>"
  obtain r s3 where e: "keyb_send net ?s2 = (r, s3)" by (cases "keyb_send net ?s2")
  then have "r = fst (keyb_send net ?s2)" by simp
  then have r: "r = Continue \<or> r = Return (- 1)" by (simp add: keyb_send_def Let_def)
  show ?case
  proof (cases "connectionok s")
    case False
    then show ?thesis by (simp add: Let_def)
  next
    case True
    from r show ?thesis
    proof
      assume "r = Continue"
      with True e Cons.IH [where md = "fst p" and s = s3] show ?thesis by (simp add: Let_def)
    next
      assume "r = Return (- 1)"
      with True e show ?thesis by (simp add: Let_def)
    qed
  qed
qed

lemma sysrq_other:
  "ev_value ev \<noteq> 0 \<Longrightarrow> sysrq_key net pass ev s = (Continue, 0, s)"
  by (simp add: sysrq_key_def)

lemma sysrq_terminate:
  "ev_value ev = 0 \<Longrightarrow> modifierkeys s AND 0x1 = 0x1 \<Longrightarrow>
   sysrq_key net pass ev s =
     (if result_alloc s then Exit 0 else Fault, 0,
      (if connectionok s
       then send net (keyb_report 0 (replicate 8 0)) (s\<lparr>hidrep := keyb_report 0 (replicate 8 0)\<rparr>)
       else s)\<lparr>xinput := xinput s @ (if result_alloc s then [(id_x11 s, True)] else [])\<rparr>)"
  by (simp add: sysrq_key_def Let_def)

lemma sysrq_pass:
  "ev_value ev = 0 \<Longrightarrow> modifierkeys s AND 0x1 \<noteq> 0x1 \<Longrightarrow> modifierkeys s AND 0x10 = 0x10 \<Longrightarrow>
   sysrq_key net pass ev s =
     (case pass_loop net pass 0 s of
        (Continue, md, s1) \<Rightarrow> (Continue, md, s1\<lparr>pressedkey := (pressedkey s1)[0 := 0]\<rparr>)
      | r \<Rightarrow> r)"
  by (simp add: sysrq_key_def)

lemma sysrq_toggle:
  "ev_value ev = 0 \<Longrightarrow> modifierkeys s AND 0x1 \<noteq> 0x1 \<Longrightarrow> modifierkeys s AND 0x10 \<noteq> 0x10 \<Longrightarrow>
   sysrq_key net pass ev s =
     (if stop_writing s \<and> id_x11 s \<noteq> 0 \<and> \<not> result_alloc s then Fault else Continue, 0,
      s\<lparr>on := \<not> on s,
        xinput := xinput s @ (if stop_writing s \<and> id_x11 s \<noteq> 0 \<and> result_alloc s
                              then [(id_x11 s, on s)] else [])\<rparr>)"
  by (simp add: sysrq_key_def Let_def)

lemma sysrq_pass_result:
  assumes "ev_value ev = 0" "modifierkeys s AND 0x1 \<noteq> 0x1" "modifierkeys s AND 0x10 = 0x10"
  shows "fst (sysrq_key net pass ev s) = fst (pass_loop net pass 0 s)"
    and "snd (snd (sysrq_key net pass ev s)) =
           (if fst (pass_loop net pass 0 s) = Continue
            then (snd (snd (pass_loop net pass 0 s)))
                   \<lparr>pressedkey := (pressedkey (snd (snd (pass_loop net pass 0 s))))[0 := 0]\<rparr>
            else snd (snd (pass_loop net pass 0 s)))"
proof -
  obtain r md s1 where e: "pass_loop net pass 0 s = (r, md, s1)"
    by (cases "pass_loop net pass 0 s")
  show "fst (sysrq_key net pass ev s) = fst (pass_loop net pass 0 s)"
    by (cases r) (simp_all add: sysrq_pass [OF assms] e)
  show "snd (snd (sysrq_key net pass ev s)) =
           (if fst (pass_loop net pass 0 s) = Continue
            then (snd (snd (pass_loop net pass 0 s)))
                   \<lparr>pressedkey := (pressedkey (snd (snd (pass_loop net pass 0 s))))[0 := 0]\<rparr>
            else snd (snd (pass_loop net pass 0 s)))"
    by (cases r) (simp_all add: sysrq_pass [OF assms] e)
qed

lemma sysrq_orderly:
  "orderly net s (fst (sysrq_key net pass ev s)) (snd (snd (sysrq_key net pass ev s)))"
proof -
  consider (o) "ev_value ev \<noteq> 0"
    | (t) "ev_value ev = 0" "modifierkeys s AND 0x1 = 0x1"
    | (p) "ev_value ev = 0" "modifierkeys s AND 0x1 \<noteq> 0x1" "modifierkeys s AND 0x10 = 0x10"
    | (g) "ev_value ev = 0" "modifierkeys s AND 0x1 \<noteq> 0x1" "modifierkeys s AND 0x10 \<noteq> 0x10"
    by blast
  then show ?thesis
  proof cases
    case o
    then show ?thesis by (simp add: sysrq_other orderly_same_sent)
  next
    case t
    then show ?thesis by (simp add: sysrq_terminate orderly_def)
  next
    case p
    have "orderly net s (fst (pass_loop net pass 0 s)) (snd (snd (pass_loop net pass 0 s)))"
      by (rule pass_loop_orderly)
    then show ?thesis by (auto simp add: sysrq_pass_result [OF p] orderly_def)
  next
    case g
    then show ?thesis by (simp add: sysrq_toggle orderly_same_sent)
  qed
qed

lemma sysrq_outcome:
  "fst (sysrq_key net pass ev s) \<in> {Continue, Return (- 1), Exit 0, Fault}"
proof -
  consider (o) "ev_value ev \<noteq> 0"
    | (t) "ev_value ev = 0" "modifierkeys s AND 0x1 = 0x1"
    | (p) "ev_value ev = 0" "modifierkeys s AND 0x1 \<noteq> 0x1" "modifierkeys s AND 0x10 = 0x10"
    | (g) "ev_value ev = 0" "modifierkeys s AND 0x1 \<noteq> 0x1" "modifierkeys s AND 0x10 \<noteq> 0x10"
    by blast
  then show ?thesis
  proof cases
    case o
    then show ?thesis by (simp add: sysrq_other)
  next
    case t
    then show ?thesis by (simp add: sysrq_terminate)
  next
    case p
    then show ?thesis using pass_loop_outcome [of net pass 0 s]
      by (auto simp add: sysrq_pass_result(1) [OF p])
  next
    case g
    then show ?thesis by (simp add: sysrq_toggle)
  qed
qed

lemma sysrq_frame:
  "connectionok (snd (snd (sysrq_key net pass ev s))) = connectionok s"
  "prepareshutdown (snd (snd (sysrq_key net pass ev s))) = prepareshutdown s"
  "stop_writing (snd (snd (sysrq_key net pass ev s))) = stop_writing s"
  "id_x11 (snd (snd (sysrq_key net pass ev s))) = id_x11 s"
  "result_alloc (snd (snd (sysrq_key net pass ev s))) = result_alloc s"
  "modifierkeys (snd (snd (sysrq_key net pass ev s))) = modifierkeys s"
  "mousebuttons (snd (snd (sysrq_key net pass ev s))) = mousebuttons s"
proof -
  consider (o) "ev_value ev \<noteq> 0"
    | (t) "ev_value ev = 0" "modifierkeys s AND 0x1 = 0x1"
    | (p) "ev_value ev = 0" "modifierkeys s AND 0x1 \<noteq> 0x1" "modifierkeys s AND 0x10 = 0x10"
    | (g) "ev_value ev = 0" "modifierkeys s AND 0x1 \<noteq> 0x1" "modifierkeys s AND 0x10 \<noteq> 0x10"
    by blast
  then have "connectionok (snd (snd (sysrq_key net pass ev s))) = connectionok s
    \<and> prepareshutdown (snd (snd (sysrq_key net pass ev s))) = prepareshutdown s
    \<and> stop_writing (snd (snd (sysrq_key net pass ev s))) = stop_writing s
    \<and> id_x11 (snd (snd (sysrq_key net pass ev s))) = id_x11 s
    \<and> result_alloc (snd (snd (sysrq_key net pass ev s))) = result_alloc s
    \<and> modifierkeys (snd (snd (sysrq_key net pass ev s))) = modifierkeys s
    \<and> mousebuttons (snd (snd (sysrq_key net pass ev s))) = mousebuttons s"
  proof cases
    case o
    then show ?thesis by (simp add: sysrq_other)
  next
    case t
    then show ?thesis by (simp add: sysrq_terminate)
  next
    case p
    show ?thesis by (simp add: sysrq_pass_result [OF p])
  next
    case g
    then show ?thesis by (simp add: sysrq_toggle)
  qed
  then show "connectionok (snd (snd (sysrq_key net pass ev s))) = connectionok s"
    "prepareshutdown (snd (snd (sysrq_key net pass ev s))) = prepareshutdown s"
    "stop_writing (snd (snd (sysrq_key net pass ev s))) = stop_writing s"
    "id_x11 (snd (snd (sysrq_key net pass ev s))) = id_x11 s"
    "result_alloc (snd (snd (sysrq_key net pass ev s))) = result_alloc s"
    "modifierkeys (snd (snd (sysrq_key net pass ev s))) = modifierkeys s"
    "mousebuttons (snd (snd (sysrq_key net pass ev s))) = mousebuttons s"
    by simp_all
qed

lemma key_tail_fields [simp]:
  "connectionok (snd (key_tail net ev u pm md s)) = connectionok s"
  "prepareshutdown (snd (key_tail net ev u pm md s)) = prepareshutdown s"
  "stop_writing (snd (key_tail net ev u pm md s)) = stop_writing s"
  "id_x11 (snd (key_tail net ev u pm md s)) = id_x11 s"
  "result_alloc (snd (key_tail net ev u pm md s)) = result_alloc s"
  "on (snd (key_tail net ev u pm md s)) = on s"
  "mousebuttons (snd (key_tail net ev u pm md s)) = mousebuttons s"
  "xinput (snd (key_tail net ev u pm md s)) = xinput s"
  by (simp_all add: key_tail_def)

lemma mouse_button_fields [simp]:
  "connectionok (snd (mouse_button net ev s)) = connectionok s"
  "prepareshutdown (snd (mouse_button net ev s)) = prepareshutdown s"
  "stop_writing (snd (mouse_button net ev s)) = stop_writing s"
  "id_x11 (snd (mouse_button net ev s)) = id_x11 s"
  "result_alloc (snd (mouse_button net ev s)) = result_alloc s"
  "on (snd (mouse_button net ev s)) = on s"
  "modifierkeys (snd (mouse_button net ev s)) = modifierkeys s"
  "pressedkey (snd (mouse_button net ev s)) = pressedkey s"
  "xinput (snd (mouse_button net ev s)) = xinput s"
  by (simp_all add: mouse_button_def)

lemma key_tail_outcome:
  "fst (key_tail net ev u pm md s) = Continue \<or> fst (key_tail net ev u pm md s) = Return (- 1)"
  by (simp add: key_tail_def keyb_send_def Let_def)

lemma mouse_button_outcome:
  "fst (mouse_button net ev s) = Continue \<or> fst (mouse_button net ev s) = Return (- 1)"
  by (simp add: mouse_button_def mouse_send_def Let_def)

text \<open>The three ways through a key event.\<close>

lemma key_event_button:
  assumes "ev_code ev = BTN_LEFT \<or> ev_code ev = BTN_RIGHT \<or> ev_code ev = BTN_MIDDLE"
  shows "key_event net pass ev s =
     (if fst (mouse_button net ev s) = Continue
      then key_tail net ev 1 0 0 (snd (mouse_button net ev s))
      else mouse_button net ev s)"
proof -
  obtain r s1 where e: "mouse_button net ev s = (r, s1)" by (cases "mouse_button net ev s")
  show ?thesis using assms by (cases r) (simp_all add: key_event_def e)
qed

lemma key_event_sysrq:
  assumes "ev_code ev = KEY_SYSRQ"
  shows "key_event net pass ev s =
     (if fst (sysrq_key net pass ev s) = Continue
      then key_tail net ev 1 0 (fst (snd (sysrq_key net pass ev s))) (snd (snd (sysrq_key net pass ev s)))
      else (fst (sysrq_key net pass ev s), snd (snd (sysrq_key net pass ev s))))"
proof -
  obtain r md s1 where e: "sysrq_key net pass ev s = (r, md, s1)"
    by (cases "sysrq_key net pass ev s")
  show ?thesis using assms by (cases r) (simp_all add: key_event_def e)
qed

lemma key_event_regular:
  assumes "ev_code ev \<noteq> BTN_LEFT" "ev_code ev \<noteq> BTN_RIGHT" "ev_code ev \<noteq> BTN_MIDDLE"
    "ev_code ev \<noteq> KEY_SYSRQ"
  shows "key_event net pass ev s = key_tail net ev (key_u (ev_code ev)) (pressedmod_of (ev_code ev)) 0 s"
  using assms by (simp add: key_event_def)

lemma key_event_orderly: "orderly net s (fst (key_event net pass ev s)) (snd (key_event net pass ev s))"
proof -
  consider (b) "ev_code ev = BTN_LEFT \<or> ev_code ev = BTN_RIGHT \<or> ev_code ev = BTN_MIDDLE"
    | (p) "ev_code ev = KEY_SYSRQ"
    | (k) "ev_code ev \<noteq> BTN_LEFT" "ev_code ev \<noteq> BTN_RIGHT" "ev_code ev \<noteq> BTN_MIDDLE"
          "ev_code ev \<noteq> KEY_SYSRQ"
    by blast
  then show ?thesis
  proof cases
    case b
    show ?thesis
    proof (cases "fst (mouse_button net ev s) = Continue")
      case True
      with mouse_button_orderly [of net s ev]
      have "orderly net s Continue (snd (mouse_button net ev s))" by simp
      then have "orderly net s (fst (key_tail net ev 1 0 0 (snd (mouse_button net ev s))))
                   (snd (key_tail net ev 1 0 0 (snd (mouse_button net ev s))))"
        by (rule orderly_trans) (rule key_tail_orderly)
      with True show ?thesis by (simp add: key_event_button [OF b])
    next
      case False
      with mouse_button_orderly [of net s ev] show ?thesis by (simp add: key_event_button [OF b])
    qed
  next
    case p
    show ?thesis
    proof (cases "fst (sysrq_key net pass ev s) = Continue")
      case True
      with sysrq_orderly [of net s pass ev]
      have "orderly net s Continue (snd (snd (sysrq_key net pass ev s)))" by simp
      then have "orderly net s
                   (fst (key_tail net ev 1 0 (fst (snd (sysrq_key net pass ev s)))
                           (snd (snd (sysrq_key net pass ev s)))))
                   (snd (key_tail net ev 1 0 (fst (snd (sysrq_key net pass ev s)))
                           (snd (snd (sysrq_key net pass ev s)))))"
        by (rule orderly_trans) (rule key_tail_orderly)
      with True show ?thesis by (simp add: key_event_sysrq [OF p])
    next
      case False
      with sysrq_orderly [of net s pass ev] show ?thesis by (simp add: key_event_sysrq [OF p])
    qed
  next
    case k
    show ?thesis by (simp add: key_event_regular [OF k] key_tail_orderly)
  qed
qed

lemma key_event_outcome:
  "fst (key_event net pass ev s) \<in> {Continue, Return (- 1), Exit 0, Fault}"
proof -
  consider (b) "ev_code ev = BTN_LEFT \<or> ev_code ev = BTN_RIGHT \<or> ev_code ev = BTN_MIDDLE"
    | (p) "ev_code ev = KEY_SYSRQ"
    | (k) "ev_code ev \<noteq> BTN_LEFT" "ev_code ev \<noteq> BTN_RIGHT" "ev_code ev \<noteq> BTN_MIDDLE"
          "ev_code ev \<noteq> KEY_SYSRQ"
    by blast
  then show ?thesis
  proof cases
    case b
    show ?thesis
      using key_tail_outcome [of net ev 1 0 0 "snd (mouse_button net ev s)"]
        mouse_button_outcome [of net ev s]
      by (auto simp add: key_event_button [OF b])
  next
    case p
    show ?thesis
      using key_tail_outcome [of net ev 1 0 "fst (snd (sysrq_key net pass ev s))"
          "snd (snd (sysrq_key net pass ev s))"] sysrq_outcome [of net pass ev s]
      by (auto simp add: key_event_sysrq [OF p])
  next
    case k
    show ?thesis using key_tail_outcome [of net ev "key_u (ev_code ev)" "pressedmod_of (ev_code ev)" 0 s]
      by (auto simp add: key_event_regular [OF k])
  qed
qed

lemma key_event_frame:
  "connectionok (snd (key_event net pass ev s)) = connectionok s
   \<and> prepareshutdown (snd (key_event net pass ev s)) = prepareshutdown s
   \<and> stop_writing (snd (key_event net pass ev s)) = stop_writing s
   \<and> id_x11 (snd (key_event net pass ev s)) = id_x11 s
   \<and> result_alloc (snd (key_event net pass ev s)) = result_alloc s"
proof -
  consider (b) "ev_code ev = BTN_LEFT \<or> ev_code ev = BTN_RIGHT \<or> ev_code ev = BTN_MIDDLE"
    | (p) "ev_code ev = KEY_SYSRQ"
    | (k) "ev_code ev \<noteq> BTN_LEFT" "ev_code ev \<noteq> BTN_RIGHT" "ev_code ev \<noteq> BTN_MIDDLE"
          "ev_code ev \<noteq> KEY_SYSRQ"
    by blast
  then show ?thesis
  proof cases
    case b
    show ?thesis by (simp add: key_event_button [OF b])
  next
    case p
    show ?thesis by (simp add: key_event_sysrq [OF p] sysrq_frame)
  next
    case k
    show ?thesis by (simp add: key_event_regular [OF k])
  qed
qed

lemma rel_event_props:
  "orderly net s (fst (rel_event net ev s)) (snd (rel_event net ev s))"
  "fst (rel_event net ev s) \<in> {Continue, Return (- 1), Exit 0, Fault}"
  "connectionok (snd (rel_event net ev s)) = connectionok s
   \<and> prepareshutdown (snd (rel_event net ev s)) = prepareshutdown s
   \<and> stop_writing (snd (rel_event net ev s)) = stop_writing s
   \<and> id_x11 (snd (rel_event net ev s)) = id_x11 s
   \<and> result_alloc (snd (rel_event net ev s)) = result_alloc s"
proof -
  show "orderly net s (fst (rel_event net ev s)) (snd (rel_event net ev s))"
  proof -
    have "orderly net s (fst (mouse_send net (rel_update ev s))) (snd (mouse_send net (rel_update ev s)))"
      by (rule orderly_from [OF _ mouse_send_orderly]) simp
    then show ?thesis by (simp add: rel_event_def orderly_same_sent)
  qed
  show "fst (rel_event net ev s) \<in> {Continue, Return (- 1), Exit 0, Fault}"
    by (simp add: rel_event_def mouse_send_def Let_def)
  show "connectionok (snd (rel_event net ev s)) = connectionok s
   \<and> prepareshutdown (snd (rel_event net ev s)) = prepareshutdown s
   \<and> stop_writing (snd (rel_event net ev s)) = stop_writing s
   \<and> id_x11 (snd (rel_event net ev s)) = id_x11 s
   \<and> result_alloc (snd (rel_event net ev s)) = result_alloc s"
    by (simp add: rel_event_def)
qed

lemma handle_event_orderly:
  "orderly net s (fst (handle_event net pass ev s)) (snd (handle_event net pass ev s))"
proof -
  have "orderly net (s\<lparr>loc_j := sizeof_input_event\<rparr>) (fst (handle_event net pass ev s))
          (snd (handle_event net pass ev s))"
    by (simp add: handle_event_def Let_def key_event_orderly rel_event_props(1) orderly_same_sent)
  then show ?thesis by (rule orderly_from [rotated]) simp
qed

lemma handle_event_outcome:
  "fst (handle_event net pass ev s) \<in> {Continue, Return (- 1), Exit 0, Fault}"
  using key_event_outcome rel_event_props(2) by (simp add: handle_event_def Let_def)

lemma handle_event_frame:
  "connectionok (snd (handle_event net pass ev s)) = connectionok s
   \<and> prepareshutdown (snd (handle_event net pass ev s)) = prepareshutdown s
   \<and> stop_writing (snd (handle_event net pass ev s)) = stop_writing s
   \<and> id_x11 (snd (handle_event net pass ev s)) = id_x11 s
   \<and> result_alloc (snd (handle_event net pass ev s)) = result_alloc s"
  using key_event_frame [of net pass ev "s\<lparr>loc_j := sizeof_input_event\<rparr>"]
    rel_event_props(3) [of net ev "s\<lparr>loc_j := sizeof_input_event\<rparr>"]
  by (simp add: handle_event_def Let_def)

lemma orderly_Return0: "orderly net s (Return 0) s' \<Longrightarrow> orderly net s Continue s'"
  by (simp add: orderly_def)

lemma parse_loop_props:
  "orderly net s (fst (parse_loop net pass rs s)) (snd (parse_loop net pass rs s))
   \<and> fst (parse_loop net pass rs s) \<in> {Return 0, Return (- 1), Exit 0, Fault}
   \<and> connectionok (snd (parse_loop net pass rs s)) = connectionok s
   \<and> prepareshutdown (snd (parse_loop net pass rs s)) = prepareshutdown s
   \<and> stop_writing (snd (parse_loop net pass rs s)) = stop_writing s
   \<and> id_x11 (snd (parse_loop net pass rs s)) = id_x11 s
   \<and> result_alloc (snd (parse_loop net pass rs s)) = result_alloc s"
proof (induction rs arbitrary: s)
  case Nil
  show ?case by (simp add: orderly_same_sent)
next
  case (Cons rd rs)
  show ?case
  proof (cases rd)
    case (Read_short n)
    have "orderly net (s\<lparr>loc_j := n\<rparr>) (fst (parse_loop net pass rs (s\<lparr>loc_j := n\<rparr>)))
            (snd (parse_loop net pass rs (s\<lparr>loc_j := n\<rparr>)))"
      using Cons.IH [of "s\<lparr>loc_j := n\<rparr>"] by blast
    then have "orderly net s (fst (parse_loop net pass rs (s\<lparr>loc_j := n\<rparr>)))
            (snd (parse_loop net pass rs (s\<lparr>loc_j := n\<rparr>)))"
      by (rule orderly_from [rotated]) simp
    with Cons.IH [of "s\<lparr>loc_j := n\<rparr>"] Read_short show ?thesis by simp
  next
    case (Read_event ev)
    obtain r s1 where e: "handle_event net pass ev s = (r, s1)"
      by (cases "handle_event net pass ev s")
    from handle_event_orderly [of net s pass ev] e have o: "orderly net s r s1" by simp
    from handle_event_outcome [of net pass ev s] e
    have r: "r = Continue \<or> r = Return (- 1) \<or> r = Exit 0 \<or> r = Fault" by simp
    from handle_event_frame [of net pass ev s] e
    have f: "connectionok s1 = connectionok s \<and> prepareshutdown s1 = prepareshutdown s
      \<and> stop_writing s1 = stop_writing s \<and> id_x11 s1 = id_x11 s \<and> result_alloc s1 = result_alloc s"
      by simp
    show ?thesis
    proof (cases "r = Continue")
      case True
      with o have "orderly net s Continue s1" by simp
      then have "orderly net s (fst (parse_loop net pass rs s1)) (snd (parse_loop net pass rs s1))"
        by (rule orderly_trans) (use Cons.IH [of s1] in simp)
      with Cons.IH [of s1] f True Read_event e show ?thesis by simp
    next
      case False
      with r have "r = Return (- 1) \<or> r = Exit 0 \<or> r = Fault" by simp
      with o f Read_event e show ?thesis by auto
    qed
  qed
qed

text \<open>The status of the process as an outcome, to speak of the order of its packets.\<close>

lemma connected_props:
  "orderly net (st p)
     (case fst (connected net pass rounds p) of
        Waiting \<Rightarrow> Continue | Next \<Rightarrow> Return (- 1) | Stopped n \<Rightarrow> Exit n | Crashed \<Rightarrow> Fault)
     (st (snd (connected net pass rounds p)))
   \<and> fst (connected net pass rounds p) \<in> {Waiting, Next, Stopped 0, Crashed}
   \<and> (fst (connected net pass rounds p) = Next \<longrightarrow> \<not> connectionok (st (snd (connected net pass rounds p))))
   \<and> prepareshutdown (st (snd (connected net pass rounds p))) = prepareshutdown (st p)
   \<and> ctl_chan_open (snd (connected net pass rounds p)) = ctl_chan_open p
   \<and> int_chan_open (snd (connected net pass rounds p)) = int_chan_open p
   \<and> listening (snd (connected net pass rounds p)) = listening p
   \<and> sdp_registered (snd (connected net pass rounds p)) = sdp_registered p
   \<and> evdevs_open (snd (connected net pass rounds p)) = evdevs_open p"
proof (induction rounds arbitrary: p)
  case Nil
  show ?case by (simp add: orderly_same_sent)
next
  case (Cons rs rounds)
  obtain r s where e: "parse_loop net pass rs (st p) = (r, s)"
    by (cases "parse_loop net pass rs (st p)")
  from parse_loop_props [of net "st p" pass rs] e
  have o: "orderly net (st p) r s"
    and r: "r = Return 0 \<or> r = Return (- 1) \<or> r = Exit 0 \<or> r = Fault"
    and f: "prepareshutdown s = prepareshutdown (st p)"
    by simp_all
  from r show ?case
  proof (elim disjE)
    assume r0: "r = Return 0"
    let ?p = "p\<lparr>st := s\<rparr>"
    have c: "connected net pass (rs # rounds) p = connected net pass rounds ?p"
      using r0 e by (simp add: parse_events_def)
    note ih = Cons.IH [of ?p]
    from o r0 have "orderly net (st p) Continue s" by (simp add: orderly_Return0)
    then have "orderly net (st p)
       (case fst (connected net pass rounds ?p) of
          Waiting \<Rightarrow> Continue | Next \<Rightarrow> Return (- 1) | Stopped n \<Rightarrow> Exit n | Crashed \<Rightarrow> Fault)
       (st (snd (connected net pass rounds ?p)))"
      by (rule orderly_trans) (use ih in simp)
    with ih f show ?thesis unfolding c by simp
  next
    assume "r = Return (- 1)"
    with o f e show ?thesis by (simp add: parse_events_def orderly_def)
  next
    assume "r = Exit 0"
    with o f e show ?thesis by (simp add: parse_events_def)
  next
    assume "r = Fault"
    with o f e show ?thesis by (simp add: parse_events_def)
  qed
qed

section \<open>The value of a session\<close>


lemma session_eq:
  "session net pass rounds p =
     (if fst (connected net pass rounds (start_session p)) = Next
      then (Next, close_session (snd (connected net pass rounds (start_session p))))
      else connected net pass rounds (start_session p))"
proof -
  obtain c p1 where e: "connected net pass rounds (start_session p) = (c, p1)"
    by (cases "connected net pass rounds (start_session p)")
  show ?thesis by (cases c) (simp_all add: session_def e)
qed

section \<open>The array of pressed keys during a session\<close>


lemma pass_loop_pressedkey:
  "(pressedkey (snd (snd (pass_loop net pass md s))))[0 := 0] = (pressedkey s)[0 := 0]"
proof (induction pass arbitrary: md s)
  case Nil
  show ?case by simp
next
  case (Cons p ps)
  let ?s2 = "s\<lparr>pressedkey := (pressedkey s)[0 := snd p],
               hidrep := keyb_report (fst p) ((pressedkey s)[0 := snd p])\<rparr>"
  obtain r s3 where e: "keyb_send net ?s2 = (r, s3)" by (cases "keyb_send net ?s2")
  then have "s3 = snd (keyb_send net ?s2)" by simp
  then have s3: "pressedkey s3 = (pressedkey s)[0 := snd p]" by simp
  show ?case
  proof (cases "connectionok s")
    case False
    then show ?thesis by (simp add: Let_def)
  next
    case True
    show ?thesis
    proof (cases r)
      case Continue
      with True e Cons.IH [where md = "fst p" and s = s3] s3 show ?thesis
        by (simp add: Let_def)
    next
      case (Return x2)
      with True e s3 show ?thesis by (simp add: Let_def)
    next
      case (Exit x3)
      with True e s3 show ?thesis by (simp add: Let_def)
    next
      case Fault
      with True e s3 show ?thesis by (simp add: Let_def)
    qed
  qed
qed

lemma burst_release:
  assumes "wf_pressed pk"
  shows "fst (key_up (pk[0 := 0]) 0 0) = tl pk @ [0]" and "wf_pressed (tl pk @ [0])"
    and "held (tl pk @ [0]) = tl (held pk)"
proof -
  note d = wf_pressedD [OF assms]
  from d(5) obtain x xs where pk: "pk = x # xs" by (cases pk) auto
  with d(5) have "length (pk[0 := 0]) = 8" by simp
  then have "key_up (pk[0 := 0]) 0 0 = (release (pk[0 := 0]) 0, 8)"
    using key_up_release [of "pk[0 := 0]" 0 0] by simp
  then show "fst (key_up (pk[0 := 0]) 0 0) = tl pk @ [0]" by (simp add: pk)
  have "wf_pressed (tl pk @ [0]) \<and> held (tl pk @ [0]) = tl (held pk)"
  proof (cases "held pk")
    case Nil
    with d(1) have "pk = replicate 8 0" by simp
    then have e: "tl pk @ [0] = [] @ replicate (8 - length ([] :: byte list)) 0"
      by (simp add: numeral_eq_Suc)
    have "wf_pressed ([] @ replicate (8 - length ([] :: byte list)) 0)"
      by (rule wf_pressedI) simp_all
    then have "wf_pressed (tl pk @ [0])" by (simp only: e)
    moreover from Nil have "held (tl pk @ [0]) = tl (held pk)"
      by (simp add: e held_def)
    ultimately show ?thesis by simp
  next
    case (Cons k ks)
    have "Suc (8 - length (held pk)) = 8 - length ks" using Cons d(2) by simp
    then have "replicate (8 - length (held pk)) 0 @ [0 :: byte] = replicate (8 - length ks) 0"
      by (metis replicate_Suc replicate_append_same)
    with d(1) Cons have e: "tl pk @ [0] = ks @ replicate (8 - length ks) 0"
      by (metis append.assoc list.sel(3) tl_append2 list.distinct(1))
    have "wf_pressed (ks @ replicate (8 - length ks) 0)"
      using Cons d by (intro wf_pressedI) auto
    then have "wf_pressed (tl pk @ [0])" by (simp only: e)
    moreover have "held (ks @ replicate (8 - length ks) 0) = ks"
      using Cons d(3) by (intro held_append_zeros) auto
    then have "held (tl pk @ [0]) = tl (held pk)" by (simp add: e Cons)
    ultimately show ?thesis by simp
  qed
  then show "wf_pressed (tl pk @ [0])" "held (tl pk @ [0]) = tl (held pk)" by simp_all
qed

lemma key_update_wf:
  assumes "wf_pressed (pressedkey s)"
  shows "wf_pressed (pressedkey (key_update ev u pm md s))"
  by (subst key_update_pressedkey) (simp add: key_down_wf [OF assms] key_up_wf [OF assms] assms)

lemma key_tail_wf:
  "wf_pressed (pressedkey s) \<Longrightarrow> wf_pressed (pressedkey (snd (key_tail net ev u pm md s)))"
  by (simp add: key_tail_def key_update_wf)

lemma key_tail_burst:
  assumes "wf_pressed pk" and "ev_value ev = 0" and "pressedkey s = pk[0 := 0]"
  shows "pressedkey (snd (key_tail net ev 1 0 md s)) = tl pk @ [0]"
proof -
  have "pressedkey (snd (key_tail net ev 1 0 md s)) = pressedkey (key_update ev 1 0 md s)"
    by (simp add: key_tail_def)
  also have "\<dots> = fst (key_up (pk[0 := 0]) 0 0)"
    by (subst key_update_pressedkey) (simp add: assms(2,3))
  also have "\<dots> = tl pk @ [0]" by (rule burst_release(1) [OF assms(1)])
  finally show ?thesis .
qed

lemma key_event_wf:
  assumes "wf_pressed (pressedkey s)"
    and "\<not> (ev_code ev = KEY_SYSRQ \<and> ev_value ev = 0 \<and> modifierkeys s AND 0x1 \<noteq> 0x1
            \<and> modifierkeys s AND 0x10 = 0x10 \<and> fst (key_event net pass ev s) = Return (- 1))"
  shows "wf_pressed (pressedkey (snd (key_event net pass ev s)))"
proof -
  consider (b) "ev_code ev = BTN_LEFT \<or> ev_code ev = BTN_RIGHT \<or> ev_code ev = BTN_MIDDLE"
    | (p) "ev_code ev = KEY_SYSRQ"
    | (k) "ev_code ev \<noteq> BTN_LEFT" "ev_code ev \<noteq> BTN_RIGHT" "ev_code ev \<noteq> BTN_MIDDLE"
          "ev_code ev \<noteq> KEY_SYSRQ"
    by blast
  then show ?thesis
  proof cases
    case b
    show ?thesis using assms(1) by (simp add: key_event_button [OF b] key_tail_wf)
  next
    case k
    show ?thesis using assms(1) by (simp add: key_event_regular [OF k] key_tail_wf)
  next
    case p
    consider (o) "ev_value ev \<noteq> 0"
      | (t) "ev_value ev = 0" "modifierkeys s AND 0x1 = 0x1"
      | (pp) "ev_value ev = 0" "modifierkeys s AND 0x1 \<noteq> 0x1" "modifierkeys s AND 0x10 = 0x10"
      | (g) "ev_value ev = 0" "modifierkeys s AND 0x1 \<noteq> 0x1" "modifierkeys s AND 0x10 \<noteq> 0x10"
      by blast
    then show ?thesis
    proof cases
      case o
      then show ?thesis using assms(1) by (simp add: key_event_sysrq [OF p] sysrq_other key_tail_wf)
    next
      case t
      then show ?thesis using assms(1) by (simp add: key_event_sysrq [OF p] sysrq_terminate)
    next
      case g
      then show ?thesis using assms(1) by (simp add: key_event_sysrq [OF p] sysrq_toggle key_tail_wf)
    next
      case pp
      note r = sysrq_pass_result [OF pp, of net pass]
      from pass_loop_outcome [of net pass 0 s]
      show ?thesis
      proof
        assume c: "fst (pass_loop net pass 0 s) = Continue"
        let ?s1 = "(snd (snd (pass_loop net pass 0 s)))
                   \<lparr>pressedkey := (pressedkey (snd (snd (pass_loop net pass 0 s))))[0 := 0]\<rparr>"
        have "pressedkey ?s1 = (pressedkey s)[0 := 0]" by (simp add: pass_loop_pressedkey)
        then have "pressedkey (snd (key_tail net ev 1 0 (fst (snd (sysrq_key net pass ev s))) ?s1))
                     = tl (pressedkey s) @ [0]"
          by (rule key_tail_burst [OF assms(1) pp(1)])
        then show ?thesis using c burst_release(2) [OF assms(1)]
          by (simp add: key_event_sysrq [OF p] r)
      next
        assume f: "fst (pass_loop net pass 0 s) = Return (- 1)"
        then have "fst (key_event net pass ev s) = Return (- 1)"
          by (simp add: key_event_sysrq [OF p] r)
        with assms(2) p pp show ?thesis by simp
      qed
    qed
  qed
qed

lemma handle_event_wf:
  assumes "wf_pressed (pressedkey s)"
    and "\<not> (ev_type ev = EV_KEY \<and> ev_code ev = KEY_SYSRQ \<and> ev_value ev = 0
            \<and> modifierkeys s AND 0x1 \<noteq> 0x1 \<and> modifierkeys s AND 0x10 = 0x10
            \<and> fst (handle_event net pass ev s) = Return (- 1))"
  shows "wf_pressed (pressedkey (snd (handle_event net pass ev s)))"
proof (cases "ev_type ev = EV_KEY")
  case True
  let ?s = "s\<lparr>loc_j := sizeof_input_event\<rparr>"
  have h: "handle_event net pass ev s = key_event net pass ev ?s"
    using True by (simp add: handle_event_def)
  have "wf_pressed (pressedkey (snd (key_event net pass ev ?s)))"
    by (rule key_event_wf) (use assms True h in simp_all)
  then show ?thesis by (simp add: h)
next
  case False
  then show ?thesis using assms(1) by (simp add: handle_event_def Let_def rel_event_def)
qed

lemma parse_loop_wf:
  "wf_pressed (pressedkey s) \<Longrightarrow> fst (parse_loop net pass rs s) = Return 0 \<Longrightarrow>
   wf_pressed (pressedkey (snd (parse_loop net pass rs s)))"
proof (induction rs arbitrary: s)
  case Nil
  then show ?case by simp
next
  case (Cons rd rs)
  show ?case
  proof (cases rd)
    case (Read_short n)
    with Cons.prems Cons.IH [of "s\<lparr>loc_j := n\<rparr>"] show ?thesis by simp
  next
    case (Read_event ev)
    obtain r s1 where e: "handle_event net pass ev s = (r, s1)"
      by (cases "handle_event net pass ev s")
    from handle_event_outcome [of net pass ev s] e
    have r: "r = Continue \<or> r = Return (- 1) \<or> r = Exit 0 \<or> r = Fault" by simp
    show ?thesis
    proof (cases "r = Continue")
      case True
      have "wf_pressed (pressedkey (snd (handle_event net pass ev s)))"
        by (rule handle_event_wf [OF Cons.prems(1)]) (simp add: e True)
      then have "wf_pressed (pressedkey s1)" by (simp add: e)
      with Cons.IH [of s1] Cons.prems(2) True Read_event e show ?thesis by simp
    next
      case False
      with r Cons.prems(2) Read_event e show ?thesis by auto
    qed
  qed
qed

lemma connected_wf:
  "wf_pressed (pressedkey (st p)) \<Longrightarrow> fst (connected net pass rounds p) = Waiting \<Longrightarrow>
   wf_pressed (pressedkey (st (snd (connected net pass rounds p))))"
proof (induction rounds arbitrary: p)
  case Nil
  then show ?case by simp
next
  case (Cons rs rounds)
  obtain r s where e: "parse_loop net pass rs (st p) = (r, s)"
    by (cases "parse_loop net pass rs (st p)")
  from parse_loop_props [of net "st p" pass rs] e
  have r: "r = Return 0 \<or> r = Return (- 1) \<or> r = Exit 0 \<or> r = Fault" by simp
  from r show ?case
  proof (elim disjE)
    assume r0: "r = Return 0"
    have c: "connected net pass (rs # rounds) p = connected net pass rounds (p\<lparr>st := s\<rparr>)"
      using r0 e by (simp add: parse_events_def)
    have "wf_pressed (pressedkey (snd (parse_loop net pass rs (st p))))"
      by (rule parse_loop_wf [OF Cons.prems(1)]) (simp add: e r0)
    then have "wf_pressed (pressedkey (st (p\<lparr>st := s\<rparr>)))" by (simp add: e)
    then show ?thesis using Cons.prems(2) unfolding c by (rule Cons.IH)
  next
    assume "r = Return (- 1)"
    with Cons.prems(2) e show ?thesis by (simp add: parse_events_def)
  next
    assume "r = Exit 0"
    with Cons.prems(2) e show ?thesis by (simp add: parse_events_def)
  next
    assume "r = Fault"
    with Cons.prems(2) e show ?thesis by (simp add: parse_events_def)
  qed
qed

lemma wf_pressed_zeros: "wf_pressed (replicate 8 0)"
  using wf_pressedI [of "[]"] by simp

lemma session_wf:
  assumes "fst (session net pass rounds p) = Waiting"
  shows "wf_pressed (pressedkey (st (snd (session net pass rounds p))))"
proof -
  let ?c = "connected net pass rounds (start_session p)"
  from assms have n: "fst ?c \<noteq> Next" by (auto simp add: session_eq split: if_splits)
  then have e: "session net pass rounds p = ?c" by (simp add: session_eq)
  have "wf_pressed (pressedkey (st (snd ?c)))"
    by (rule connected_wf) (use assms e in \<open>simp_all add: start_session_def wf_pressed_zeros\<close>)
  then show ?thesis by (simp add: e)
qed

lemma burst_event_held:
  assumes "wf_pressed (pressedkey s)" and "ev_type ev = EV_KEY" and "ev_code ev = KEY_SYSRQ"
    and "ev_value ev = 0" and "modifierkeys s AND 0x1 \<noteq> 0x1" and "modifierkeys s AND 0x10 = 0x10"
    and "fst (handle_event net pass ev s) = Continue"
  shows "held (pressedkey (snd (handle_event net pass ev s))) = tl (held (pressedkey s))"
proof -
  let ?s = "s\<lparr>loc_j := sizeof_input_event\<rparr>"
  have h: "handle_event net pass ev s = key_event net pass ev ?s"
    using assms(2) by (simp add: handle_event_def)
  have m: "ev_value ev = 0" "modifierkeys ?s AND 0x1 \<noteq> 0x1" "modifierkeys ?s AND 0x10 = 0x10"
    using assms(4-6) by simp_all
  note r = sysrq_pass_result [OF m, of net pass]
  have c: "fst (pass_loop net pass 0 ?s) = Continue"
  proof (rule ccontr)
    assume "fst (pass_loop net pass 0 ?s) \<noteq> Continue"
    then have "fst (key_event net pass ev ?s) \<noteq> Continue"
      by (simp add: key_event_sysrq [OF assms(3)] r)
    with assms(7) h show False by simp
  qed
  let ?s1 = "(snd (snd (pass_loop net pass 0 ?s)))
                   \<lparr>pressedkey := (pressedkey (snd (snd (pass_loop net pass 0 ?s))))[0 := 0]\<rparr>"
  have "pressedkey ?s1 = (pressedkey s)[0 := 0]" by (simp add: pass_loop_pressedkey)
  then have "pressedkey (snd (key_tail net ev 1 0 (fst (snd (sysrq_key net pass ev ?s))) ?s1))
                     = tl (pressedkey s) @ [0]"
    by (rule key_tail_burst [OF assms(1) assms(4)])
  then have "pressedkey (snd (handle_event net pass ev s)) = tl (pressedkey s) @ [0]"
    using c by (simp add: h key_event_sysrq [OF assms(3)] r)
  then show ?thesis by (simp add: burst_release(3) [OF assms(1)])
qed

text \<open>
  C1, as amended. When a session becomes connected the array of pressed keys is set to
  eight zeros. As long as the session stays connected, after every round of events the
  array has the form \<open>wf_pressed\<close>: the usages held, at most 8 and all different, in the
  order in which they came, followed by zeros. On such an array the key-down loop
  appends a usage that is not 0, not yet in the array and finds a free slot, and
  changes nothing otherwise; the key-up loop removes the usage and moves the later ones
  one place to the left. Every event keeps the form, unless it is a password burst cut
  short by a failed send; a password burst that is not cut short removes the oldest
  usage from the array. (While a burst runs, slot 0 holds the usages of the password.)
\<close>

theorem pressedkey_invariant:
  "pressedkey (st (start_session p)) = [0, 0, 0, 0, 0, 0, 0, 0]
   \<and> (fst (session net pass rounds p) = Waiting \<longrightarrow>
        wf_pressed (pressedkey (st (snd (session net pass rounds p))))
        \<and> length (held (pressedkey (st (snd (session net pass rounds p))))) \<le> 8
        \<and> distinct (held (pressedkey (st (snd (session net pass rounds p))))))
   \<and> (wf_pressed pk \<longrightarrow>
        wf_pressed (fst (key_down pk c 0))
        \<and> held (fst (key_down pk c 0))
            = (if c = 0 \<or> c \<in> set (held pk) \<or> length (held pk) = 8 then held pk else held pk @ [c])
        \<and> wf_pressed (fst (key_up pk c 0))
        \<and> held (fst (key_up pk c 0)) = remove1 c (held pk))
   \<and> (wf_pressed (pressedkey s)
        \<and> \<not> (ev_type ev = EV_KEY \<and> ev_code ev = KEY_SYSRQ \<and> ev_value ev = 0
              \<and> modifierkeys s AND 0x1 \<noteq> 0x1 \<and> modifierkeys s AND 0x10 = 0x10
              \<and> fst (handle_event net pass ev s) = Return (- 1)) \<longrightarrow>
        wf_pressed (pressedkey (snd (handle_event net pass ev s))))
   \<and> (wf_pressed (pressedkey s)
        \<and> ev_type ev = EV_KEY \<and> ev_code ev = KEY_SYSRQ \<and> ev_value ev = 0
        \<and> modifierkeys s AND 0x1 \<noteq> 0x1 \<and> modifierkeys s AND 0x10 = 0x10
        \<and> fst (handle_event net pass ev s) = Continue \<longrightarrow>
        held (pressedkey (snd (handle_event net pass ev s))) = tl (held (pressedkey s)))"
proof (intro conjI impI)
  show "pressedkey (st (start_session p)) = [0, 0, 0, 0, 0, 0, 0, 0]"
    by (simp add: start_session_def numeral_eq_Suc)
next
  assume w: "fst (session net pass rounds p) = Waiting"
  then show a: "wf_pressed (pressedkey (st (snd (session net pass rounds p))))"
    by (rule session_wf)
  from wf_pressedD [OF a]
  show "length (held (pressedkey (st (snd (session net pass rounds p))))) \<le> 8"
    and "distinct (held (pressedkey (st (snd (session net pass rounds p)))))"
    by simp_all
next
  assume w: "wf_pressed pk"
  from key_down_wf [OF w, of c]
  show "wf_pressed (fst (key_down pk c 0))"
    and "held (fst (key_down pk c 0))
            = (if c = 0 \<or> c \<in> set (held pk) \<or> length (held pk) = 8 then held pk else held pk @ [c])"
    by simp_all
  from key_up_wf [OF w, of c]
  show "wf_pressed (fst (key_up pk c 0))" and "held (fst (key_up pk c 0)) = remove1 c (held pk)"
    by simp_all
next
  assume "wf_pressed (pressedkey s)
        \<and> \<not> (ev_type ev = EV_KEY \<and> ev_code ev = KEY_SYSRQ \<and> ev_value ev = 0
              \<and> modifierkeys s AND 0x1 \<noteq> 0x1 \<and> modifierkeys s AND 0x10 = 0x10
              \<and> fst (handle_event net pass ev s) = Return (- 1))"
  then show "wf_pressed (pressedkey (snd (handle_event net pass ev s)))"
    using handle_event_wf [of s ev net pass] by blast
next
  assume "wf_pressed (pressedkey s)
        \<and> ev_type ev = EV_KEY \<and> ev_code ev = KEY_SYSRQ \<and> ev_value ev = 0
        \<and> modifierkeys s AND 0x1 \<noteq> 0x1 \<and> modifierkeys s AND 0x10 = 0x10
        \<and> fst (handle_event net pass ev s) = Continue"
  then show "held (pressedkey (snd (handle_event net pass ev s))) = tl (held (pressedkey s))"
    using burst_event_held [of s ev net pass] by blast
qed

text \<open>
  The claim as stated fails. The array \<^verbatim>\<open>pass\<close> holds the one pair (0, 0x28). A session
  is accepted, PRINT is released (reports are sent from now on), A and ENTER are
  pressed (the array holds 0x18 and 0x28), the right control key is pressed and PRINT
  is released. The loop over \<^verbatim>\<open>pass\<close> writes 0x28 to slot 0: behind it the array holds
  0x28 twice, and so does the report that the loop has sent (the last but one of the
  session).
\<close>

lemma run_before_burst:
  "main_loop (\<lambda>n. 11) [(0, 0x28)]
     [\<lparr>it_drain1 = [], it_accept = Accepted, it_drain2 = [],
       it_session = [[Read_event \<lparr>ev_type = EV_KEY, ev_code = KEY_SYSRQ, ev_value = 0\<rparr>],
                     [Read_event \<lparr>ev_type = EV_KEY, ev_code = KEY_A, ev_value = 1\<rparr>],
                     [Read_event \<lparr>ev_type = EV_KEY, ev_code = KEY_ENTER, ev_value = 1\<rparr>],
                     [Read_event \<lparr>ev_type = EV_KEY, ev_code = KEY_RIGHTCTRL, ev_value = 1\<rparr>]]\<rparr>]
     (init_process False 0)
   = (Waiting,
      \<lparr>st = \<lparr>prepareshutdown = 0, mousebuttons = 0, modifierkeys = 0x8010,
              pressedkey = [0x18, 0x28, 0, 0, 0, 0, 0, 0], connectionok = True, on = True,
              stop_writing = False, id_x11 = 0, result_alloc = False, loc_j = 11,
              hidrep = [0xA1, 2, 0x10, 0x18, 0x28, 0, 0, 0, 0, 0, 0],
              sent = [[0xA1, 2, 0, 0, 0, 0, 0, 0, 0, 0, 0],
                      [0xA1, 2, 0, 0x18, 0, 0, 0, 0, 0, 0, 0],
                      [0xA1, 2, 0, 0x18, 0x28, 0, 0, 0, 0, 0, 0],
                      [0xA1, 2, 0x10, 0x18, 0x28, 0, 0, 0, 0, 0, 0]], xinput = []\<rparr>,
        ctl_chan_open = True, int_chan_open = True, listening = True,
        sdp_registered = True, evdevs_open = True\<rparr>)"
  by code_simp

lemma run_with_burst:
  "sent (st (snd (main_loop (\<lambda>n. 11) [(0, 0x28)]
     [\<lparr>it_drain1 = [], it_accept = Accepted, it_drain2 = [],
       it_session = [[Read_event \<lparr>ev_type = EV_KEY, ev_code = KEY_SYSRQ, ev_value = 0\<rparr>],
                     [Read_event \<lparr>ev_type = EV_KEY, ev_code = KEY_A, ev_value = 1\<rparr>],
                     [Read_event \<lparr>ev_type = EV_KEY, ev_code = KEY_ENTER, ev_value = 1\<rparr>],
                     [Read_event \<lparr>ev_type = EV_KEY, ev_code = KEY_RIGHTCTRL, ev_value = 1\<rparr>],
                     [Read_event \<lparr>ev_type = EV_KEY, ev_code = KEY_SYSRQ, ev_value = 0\<rparr>]]\<rparr>]
     (init_process False 0))))
   = [[0xA1, 2, 0, 0, 0, 0, 0, 0, 0, 0, 0],
      [0xA1, 2, 0, 0x18, 0, 0, 0, 0, 0, 0, 0],
      [0xA1, 2, 0, 0x18, 0x28, 0, 0, 0, 0, 0, 0],
      [0xA1, 2, 0x10, 0x18, 0x28, 0, 0, 0, 0, 0, 0],
      [0xA1, 2, 0, 0x28, 0x28, 0, 0, 0, 0, 0, 0],
      [0xA1, 2, 0, 0x28, 0, 0, 0, 0, 0, 0, 0]]"
  by code_simp

theorem pressedkey_duplicate_counterexample:
  "pressedkey (snd (snd (pass_loop (\<lambda>n. 11) [(0, 0x28)] 0
      (st (snd (main_loop (\<lambda>n. 11) [(0, 0x28)]
        [\<lparr>it_drain1 = [], it_accept = Accepted, it_drain2 = [],
          it_session = [[Read_event \<lparr>ev_type = EV_KEY, ev_code = KEY_SYSRQ, ev_value = 0\<rparr>],
                        [Read_event \<lparr>ev_type = EV_KEY, ev_code = KEY_A, ev_value = 1\<rparr>],
                        [Read_event \<lparr>ev_type = EV_KEY, ev_code = KEY_ENTER, ev_value = 1\<rparr>],
                        [Read_event \<lparr>ev_type = EV_KEY, ev_code = KEY_RIGHTCTRL, ev_value = 1\<rparr>]]\<rparr>]
        (init_process False 0)))))))
     = [0x28, 0x28, 0, 0, 0, 0, 0, 0]
   \<and> sent (st (snd (main_loop (\<lambda>n. 11) [(0, 0x28)]
        [\<lparr>it_drain1 = [], it_accept = Accepted, it_drain2 = [],
          it_session = [[Read_event \<lparr>ev_type = EV_KEY, ev_code = KEY_SYSRQ, ev_value = 0\<rparr>],
                        [Read_event \<lparr>ev_type = EV_KEY, ev_code = KEY_A, ev_value = 1\<rparr>],
                        [Read_event \<lparr>ev_type = EV_KEY, ev_code = KEY_ENTER, ev_value = 1\<rparr>],
                        [Read_event \<lparr>ev_type = EV_KEY, ev_code = KEY_RIGHTCTRL, ev_value = 1\<rparr>],
                        [Read_event \<lparr>ev_type = EV_KEY, ev_code = KEY_SYSRQ, ev_value = 0\<rparr>]]\<rparr>]
        (init_process False 0)))) ! 4
     = [0xA1, 2, 0, 0x28, 0x28, 0, 0, 0, 0, 0, 0]"
  unfolding run_before_burst run_with_burst by code_simp


theorem pressedkey_invariant_witness:
  "fst (session (\<lambda>n. 11) [(2, 0x04)]
        [[Read_event \<lparr>ev_type = EV_KEY, ev_code = KEY_A, ev_value = 1\<rparr>],
         [Read_event \<lparr>ev_type = EV_KEY, ev_code = KEY_B, ev_value = 1\<rparr>]]
        ((init_process False 0)\<lparr>ctl_chan_open := True, int_chan_open := True\<rparr>)) = Waiting
   \<and> wf_pressed (pressedkey (st (snd (session (\<lambda>n. 11) [(2, 0x04)]
        [[Read_event \<lparr>ev_type = EV_KEY, ev_code = KEY_A, ev_value = 1\<rparr>],
         [Read_event \<lparr>ev_type = EV_KEY, ev_code = KEY_B, ev_value = 1\<rparr>]]
        ((init_process False 0)\<lparr>ctl_chan_open := True, int_chan_open := True\<rparr>)))))
   \<and> distinct (held (pressedkey (st (snd (session (\<lambda>n. 11) [(2, 0x04)]
        [[Read_event \<lparr>ev_type = EV_KEY, ev_code = KEY_A, ev_value = 1\<rparr>],
         [Read_event \<lparr>ev_type = EV_KEY, ev_code = KEY_B, ev_value = 1\<rparr>]]
        ((init_process False 0)\<lparr>ctl_chan_open := True, int_chan_open := True\<rparr>))))))
   \<and> wf_pressed [0x18, 0x1C, 0, 0, 0, 0, 0, 0]
   \<and> held (fst (key_down [0x18, 0x1C, 0, 0, 0, 0, 0, 0] 0x04 0))
       = (if (0x04 :: byte) = 0 \<or> 0x04 \<in> set (held [0x18, 0x1C, 0, 0, 0, 0, 0, 0]) \<or> length (held [0x18, 0x1C, 0, 0, 0, 0, 0, 0]) = 8
          then held [0x18, 0x1C, 0, 0, 0, 0, 0, 0] else held [0x18, 0x1C, 0, 0, 0, 0, 0, 0] @ [0x04])
   \<and> held (fst (key_up [0x18, 0x1C, 0, 0, 0, 0, 0, 0] 0x04 0)) = remove1 0x04 (held [0x18, 0x1C, 0, 0, 0, 0, 0, 0])
   \<and> fst (handle_event (\<lambda>n. 11) [(2, 0x04)] \<lparr>ev_type = EV_KEY, ev_code = KEY_SYSRQ, ev_value = 0\<rparr>
        (init_state\<lparr>connectionok := True, on := True, modifierkeys := 0x8010,
          pressedkey := [0x18, 0x1C, 0, 0, 0, 0, 0, 0]\<rparr>)) = Continue
   \<and> wf_pressed (pressedkey (snd (handle_event (\<lambda>n. 11) [(2, 0x04)] \<lparr>ev_type = EV_KEY, ev_code = KEY_SYSRQ, ev_value = 0\<rparr>
        (init_state\<lparr>connectionok := True, on := True, modifierkeys := 0x8010,
          pressedkey := [0x18, 0x1C, 0, 0, 0, 0, 0, 0]\<rparr>))))
   \<and> held (pressedkey (snd (handle_event (\<lambda>n. 11) [(2, 0x04)] \<lparr>ev_type = EV_KEY, ev_code = KEY_SYSRQ, ev_value = 0\<rparr>
        (init_state\<lparr>connectionok := True, on := True, modifierkeys := 0x8010,
          pressedkey := [0x18, 0x1C, 0, 0, 0, 0, 0, 0]\<rparr>)))) = tl (held (pressedkey (init_state\<lparr>connectionok := True, on := True, modifierkeys := 0x8010,
          pressedkey := [0x18, 0x1C, 0, 0, 0, 0, 0, 0]\<rparr>)))"
proof -
  have h1: "fst (session (\<lambda>n. 11) [(2, 0x04)]
        [[Read_event \<lparr>ev_type = EV_KEY, ev_code = KEY_A, ev_value = 1\<rparr>],
         [Read_event \<lparr>ev_type = EV_KEY, ev_code = KEY_B, ev_value = 1\<rparr>]]
        ((init_process False 0)\<lparr>ctl_chan_open := True, int_chan_open := True\<rparr>)) = Waiting" by code_simp
  have h2: "wf_pressed [0x18, 0x1C, 0, 0, 0, 0, 0, 0]" by code_simp
  have h3: "fst (handle_event (\<lambda>n. 11) [(2, 0x04)] \<lparr>ev_type = EV_KEY, ev_code = KEY_SYSRQ, ev_value = 0\<rparr>
        (init_state\<lparr>connectionok := True, on := True, modifierkeys := 0x8010,
          pressedkey := [0x18, 0x1C, 0, 0, 0, 0, 0, 0]\<rparr>)) = Continue" by code_simp
  have h4: "wf_pressed (pressedkey (init_state\<lparr>connectionok := True, on := True, modifierkeys := 0x8010,
          pressedkey := [0x18, 0x1C, 0, 0, 0, 0, 0, 0]\<rparr>))" by code_simp
  have h5: "modifierkeys (init_state\<lparr>connectionok := True, on := True, modifierkeys := 0x8010,
          pressedkey := [0x18, 0x1C, 0, 0, 0, 0, 0, 0]\<rparr>) AND 0x1 \<noteq> 0x1" "modifierkeys (init_state\<lparr>connectionok := True, on := True, modifierkeys := 0x8010,
          pressedkey := [0x18, 0x1C, 0, 0, 0, 0, 0, 0]\<rparr>) AND 0x10 = 0x10" by simp_all
  from pressedkey_invariant [of "(init_process False 0)\<lparr>ctl_chan_open := True, int_chan_open := True\<rparr>" "\<lambda>n. 11" "[(2, 0x04)]"
      "[[Read_event \<lparr>ev_type = EV_KEY, ev_code = KEY_A, ev_value = 1\<rparr>],
         [Read_event \<lparr>ev_type = EV_KEY, ev_code = KEY_B, ev_value = 1\<rparr>]]" "[0x18, 0x1C, 0, 0, 0, 0, 0, 0]" "0x04" "(init_state\<lparr>connectionok := True, on := True, modifierkeys := 0x8010,
          pressedkey := [0x18, 0x1C, 0, 0, 0, 0, 0, 0]\<rparr>)" "\<lparr>ev_type = EV_KEY, ev_code = KEY_SYSRQ, ev_value = 0\<rparr>"] h1 h2 h3 h4 h5
  show ?thesis by simp
qed

section \<open>The mute switch\<close>


lemma key_tail_sent:
  "sent (snd (key_tail net ev u pm md s)) =
     sent s @ (if connectionok s \<and> on s then [hidrep (key_update ev u pm md s)] else [])"
  by (simp add: key_tail_def keyb_send_sent)

lemma pass_loop_muted:
  "\<not> on s \<Longrightarrow> sent (snd (snd (pass_loop net pass md s))) = sent s"
proof (induction pass arbitrary: md s)
  case Nil
  show ?case by simp
next
  case (Cons p ps)
  let ?s2 = "s\<lparr>pressedkey := (pressedkey s)[0 := snd p],
               hidrep := keyb_report (fst p) ((pressedkey s)[0 := snd p])\<rparr>"
  obtain r s3 where e: "keyb_send net ?s2 = (r, s3)" by (cases "keyb_send net ?s2")
  then have "s3 = snd (keyb_send net ?s2)" by simp
  with Cons.prems have s3: "sent s3 = sent s" "\<not> on s3" by (simp_all add: keyb_send_sent)
  show ?case
  proof (cases "connectionok s")
    case False
    then show ?thesis by (simp add: Let_def)
  next
    case True
    show ?thesis
    proof (cases r)
      case Continue
      with True e Cons.IH [where md = "fst p" and s = s3] s3 show ?thesis
        by (simp add: Let_def)
    next
      case (Return x2)
      with True e s3 show ?thesis by (simp add: Let_def)
    next
      case (Exit x3)
      with True e s3 show ?thesis by (simp add: Let_def)
    next
      case Fault
      with True e s3 show ?thesis by (simp add: Let_def)
    qed
  qed
qed

lemma sysrq_on:
  "on (snd (snd (sysrq_key net pass ev s))) =
     (if ev_value ev = 0 \<and> modifierkeys s AND 0x1 \<noteq> 0x1 \<and> modifierkeys s AND 0x10 \<noteq> 0x10
      then \<not> on s else on s)"
proof -
  consider (o) "ev_value ev \<noteq> 0"
    | (t) "ev_value ev = 0" "modifierkeys s AND 0x1 = 0x1"
    | (p) "ev_value ev = 0" "modifierkeys s AND 0x1 \<noteq> 0x1" "modifierkeys s AND 0x10 = 0x10"
    | (g) "ev_value ev = 0" "modifierkeys s AND 0x1 \<noteq> 0x1" "modifierkeys s AND 0x10 \<noteq> 0x10"
    by blast
  then show ?thesis
  proof cases
    case o
    then show ?thesis by (simp add: sysrq_other)
  next
    case t
    then show ?thesis by (simp add: sysrq_terminate)
  next
    case p
    then show ?thesis by (simp add: sysrq_pass_result [OF p])
  next
    case g
    then show ?thesis by (simp add: sysrq_toggle)
  qed
qed

lemma key_event_on:
  "on (snd (key_event net pass ev s)) =
     (if ev_code ev = KEY_SYSRQ \<and> ev_value ev = 0 \<and> modifierkeys s AND 0x1 \<noteq> 0x1
         \<and> modifierkeys s AND 0x10 \<noteq> 0x10
      then \<not> on s else on s)"
proof -
  consider (b) "ev_code ev = BTN_LEFT \<or> ev_code ev = BTN_RIGHT \<or> ev_code ev = BTN_MIDDLE"
    | (p) "ev_code ev = KEY_SYSRQ"
    | (k) "ev_code ev \<noteq> BTN_LEFT" "ev_code ev \<noteq> BTN_RIGHT" "ev_code ev \<noteq> BTN_MIDDLE"
          "ev_code ev \<noteq> KEY_SYSRQ"
    by blast
  then show ?thesis
  proof cases
    case b
    then have "ev_code ev \<noteq> KEY_SYSRQ" by auto
    then show ?thesis by (simp add: key_event_button [OF b])
  next
    case p
    show ?thesis by (simp add: key_event_sysrq [OF p] sysrq_on p)
  next
    case k
    show ?thesis by (simp add: key_event_regular [OF k] k)
  qed
qed

lemma handle_event_on:
  "on (snd (handle_event net pass ev s)) =
     (if ev_type ev = EV_KEY \<and> ev_code ev = KEY_SYSRQ \<and> ev_value ev = 0
         \<and> modifierkeys s AND 0x1 \<noteq> 0x1 \<and> modifierkeys s AND 0x10 \<noteq> 0x10
      then \<not> on s else on s)"
  using key_event_on [of net pass ev "s\<lparr>loc_j := sizeof_input_event\<rparr>"]
  by (simp add: handle_event_def Let_def rel_event_def)

lemma sysrq_muted_sent:
  assumes "\<not> on (snd (snd (sysrq_key net pass ev s)))"
    and "\<not> (ev_value ev = 0 \<and> modifierkeys s AND 0x1 = 0x1)"
  shows "sent (snd (snd (sysrq_key net pass ev s))) = sent s"
proof -
  consider (o) "ev_value ev \<noteq> 0"
    | (p) "ev_value ev = 0" "modifierkeys s AND 0x1 \<noteq> 0x1" "modifierkeys s AND 0x10 = 0x10"
    | (g) "ev_value ev = 0" "modifierkeys s AND 0x1 \<noteq> 0x1" "modifierkeys s AND 0x10 \<noteq> 0x10"
    using assms(2) by blast
  then show ?thesis
  proof cases
    case o
    then show ?thesis by (simp add: sysrq_other)
  next
    case p
    with assms(1) have "\<not> on s" by (simp add: sysrq_on)
    then show ?thesis by (simp add: sysrq_pass_result [OF p] pass_loop_muted)
  next
    case g
    then show ?thesis by (simp add: sysrq_toggle)
  qed
qed

lemma key_event_muted:
  assumes "\<not> on (snd (key_event net pass ev s))"
    and "\<not> (ev_code ev = KEY_SYSRQ \<and> ev_value ev = 0 \<and> modifierkeys s AND 0x1 = 0x1)"
  shows "\<exists>new. sent (snd (key_event net pass ev s)) = sent s @ new \<and> list_all is_mouse_report new"
proof -
  consider (b) "ev_code ev = BTN_LEFT \<or> ev_code ev = BTN_RIGHT \<or> ev_code ev = BTN_MIDDLE"
    | (p) "ev_code ev = KEY_SYSRQ"
    | (k) "ev_code ev \<noteq> BTN_LEFT" "ev_code ev \<noteq> BTN_RIGHT" "ev_code ev \<noteq> BTN_MIDDLE"
          "ev_code ev \<noteq> KEY_SYSRQ"
    by blast
  then show ?thesis
  proof cases
    case k
    from assms(1) have "\<not> on s" by (simp add: key_event_on k)
    then show ?thesis by (simp add: key_event_regular [OF k] key_tail_sent)
  next
    case b
    then have "ev_code ev \<noteq> KEY_SYSRQ" by auto
    with assms(1) have "\<not> on s" by (simp add: key_event_on)
    then show ?thesis
      by (simp add: key_event_button [OF b] key_tail_sent mouse_button_def mouse_send_sent)
  next
    case p
    let ?q = "snd (snd (sysrq_key net pass ev s))"
    from assms(1) have n: "\<not> on ?q" by (simp add: key_event_sysrq [OF p] split: if_splits)
    have "sent ?q = sent s" by (rule sysrq_muted_sent [OF n]) (use assms(2) p in simp)
    with n show ?thesis by (simp add: key_event_sysrq [OF p] key_tail_sent)
  qed
qed

lemma handle_event_muted:
  assumes "\<not> on (snd (handle_event net pass ev s))"
    and "\<not> (ev_type ev = EV_KEY \<and> ev_code ev = KEY_SYSRQ \<and> ev_value ev = 0
            \<and> modifierkeys s AND 0x1 = 0x1)"
  shows "\<exists>new. sent (snd (handle_event net pass ev s)) = sent s @ new
               \<and> list_all is_mouse_report new"
proof (cases "ev_type ev = EV_KEY")
  case True
  let ?s = "s\<lparr>loc_j := sizeof_input_event\<rparr>"
  have h: "handle_event net pass ev s = key_event net pass ev ?s"
    using True by (simp add: handle_event_def)
  have "\<exists>new. sent (snd (key_event net pass ev ?s)) = sent ?s @ new \<and> list_all is_mouse_report new"
    by (rule key_event_muted) (use assms True h in simp_all)
  then show ?thesis by (simp add: h)
next
  case False
  then show ?thesis
    by (simp add: handle_event_def Let_def rel_event_def mouse_send_sent rel_update_def)
qed

lemma handle_event_quiet:
  assumes "\<not> on s" and "list_all is_mouse_report (sent s)" and "\<not> print_release ev"
  shows "\<not> on (snd (handle_event net pass ev s))
         \<and> list_all is_mouse_report (sent (snd (handle_event net pass ev s)))"
proof -
  have o: "\<not> on (snd (handle_event net pass ev s))"
    using assms(1,3) by (auto simp add: handle_event_on print_release_def)
  have "\<exists>new. sent (snd (handle_event net pass ev s)) = sent s @ new
               \<and> list_all is_mouse_report new"
    by (rule handle_event_muted [OF o]) (use assms(3) in \<open>auto simp add: print_release_def\<close>)
  with o assms(2) show ?thesis by auto
qed

lemma parse_loop_quiet:
  "\<not> on s \<Longrightarrow> list_all is_mouse_report (sent s) \<Longrightarrow> list_all no_release rs \<Longrightarrow>
   \<not> on (snd (parse_loop net pass rs s))
   \<and> list_all is_mouse_report (sent (snd (parse_loop net pass rs s)))"
proof (induction rs arbitrary: s)
  case Nil
  then show ?case by simp
next
  case (Cons rd rs)
  show ?case
  proof (cases rd)
    case (Read_short n)
    with Cons.prems Cons.IH [of "s\<lparr>loc_j := n\<rparr>"] show ?thesis by simp
  next
    case (Read_event ev)
    obtain r s1 where e: "handle_event net pass ev s = (r, s1)"
      by (cases "handle_event net pass ev s")
    from Cons.prems(3) Read_event have n: "\<not> print_release ev" "list_all no_release rs"
      by simp_all
    from handle_event_quiet [OF Cons.prems(1,2) n(1), of net pass] e
    have q: "\<not> on s1" "list_all is_mouse_report (sent s1)" by simp_all
    show ?thesis
    proof (cases "r = Continue")
      case True
      with Cons.IH [OF q n(2)] Read_event e show ?thesis by simp
    next
      case False
      with q Read_event e show ?thesis by (cases r) simp_all
    qed
  qed
qed

lemma drain_quiet:
  "\<not> on (st p) \<Longrightarrow> list_all is_mouse_report (sent (st p)) \<Longrightarrow> no_print_release rounds \<Longrightarrow>
   \<not> on (st (snd (drain net pass rounds p)))
   \<and> list_all is_mouse_report (sent (st (snd (drain net pass rounds p))))"
proof (induction rounds arbitrary: p)
  case Nil
  then show ?case by simp
next
  case (Cons rs rounds)
  obtain r s where e: "parse_loop net pass rs (st p) = (r, s)"
    by (cases "parse_loop net pass rs (st p)")
  from Cons.prems(3) have n: "list_all no_release rs" "no_print_release rounds"
    by (simp_all add: no_print_release_def)
  from parse_loop_quiet [OF Cons.prems(1,2) n(1), of net pass] e
  have q: "\<not> on s" "list_all is_mouse_report (sent s)" by simp_all
  from parse_loop_props [of net "st p" pass rs] e
  have r: "r = Return 0 \<or> r = Return (- 1) \<or> r = Exit 0 \<or> r = Fault" by simp
  from r show ?case
  proof (elim disjE)
    assume r0: "r = Return 0"
    have c: "drain net pass (rs # rounds) p = drain net pass rounds (p\<lparr>st := s\<rparr>)"
      using r0 e by (simp add: parse_events_def)
    show ?thesis unfolding c by (rule Cons.IH) (use q n in simp_all)
  next
    assume r1: "r = Return (- 1)"
    have c: "drain net pass (rs # rounds) p = drain net pass rounds (p\<lparr>st := s\<rparr>)"
      using r1 e by (simp add: parse_events_def)
    show ?thesis unfolding c by (rule Cons.IH) (use q n in simp_all)
  next
    assume "r = Exit 0"
    with q e show ?thesis by (simp add: parse_events_def)
  next
    assume "r = Fault"
    with q e show ?thesis by (simp add: parse_events_def)
  qed
qed

lemma connected_quiet:
  "\<not> on (st p) \<Longrightarrow> list_all is_mouse_report (sent (st p)) \<Longrightarrow> no_print_release rounds \<Longrightarrow>
   \<not> on (st (snd (connected net pass rounds p)))
   \<and> list_all is_mouse_report (sent (st (snd (connected net pass rounds p))))"
proof (induction rounds arbitrary: p)
  case Nil
  then show ?case by simp
next
  case (Cons rs rounds)
  obtain r s where e: "parse_loop net pass rs (st p) = (r, s)"
    by (cases "parse_loop net pass rs (st p)")
  from Cons.prems(3) have n: "list_all no_release rs" "no_print_release rounds"
    by (simp_all add: no_print_release_def)
  from parse_loop_quiet [OF Cons.prems(1,2) n(1), of net pass] e
  have q: "\<not> on s" "list_all is_mouse_report (sent s)" by simp_all
  from parse_loop_props [of net "st p" pass rs] e
  have r: "r = Return 0 \<or> r = Return (- 1) \<or> r = Exit 0 \<or> r = Fault" by simp
  from r show ?case
  proof (elim disjE)
    assume r0: "r = Return 0"
    have c: "connected net pass (rs # rounds) p = connected net pass rounds (p\<lparr>st := s\<rparr>)"
      using r0 e by (simp add: parse_events_def)
    show ?thesis unfolding c by (rule Cons.IH) (use q n in simp_all)
  next
    assume "r = Return (- 1)"
    with q e show ?thesis by (simp add: parse_events_def)
  next
    assume "r = Exit 0"
    with q e show ?thesis by (simp add: parse_events_def)
  next
    assume "r = Fault"
    with q e show ?thesis by (simp add: parse_events_def)
  qed
qed

lemma session_quiet:
  assumes "\<not> on (st p)" and "list_all is_mouse_report (sent (st p))"
    and "no_print_release rounds"
  shows "\<not> on (st (snd (session net pass rounds p)))
         \<and> list_all is_mouse_report (sent (st (snd (session net pass rounds p))))"
proof -
  let ?c = "connected net pass rounds (start_session p)"
  have "\<not> on (st (snd ?c)) \<and> list_all is_mouse_report (sent (st (snd ?c)))"
    by (rule connected_quiet) (use assms in \<open>simp_all add: start_session_def\<close>)
  then show ?thesis by (simp add: session_eq close_session_def)
qed

lemma main_iteration_quiet:
  assumes "\<not> on (st p)" and "list_all is_mouse_report (sent (st p))" and "untoggled it"
  shows "\<not> on (st (snd (main_iteration net pass it p)))
         \<and> list_all is_mouse_report (sent (st (snd (main_iteration net pass it p))))"
proof -
  obtain r1 p1 where d1: "drain net pass (it_drain1 it) p = (r1, p1)"
    by (cases "drain net pass (it_drain1 it) p")
  from assms(3) have n: "no_print_release (it_drain1 it)" "no_print_release (it_drain2 it)"
    "no_print_release (it_session it)" by (simp_all add: untoggled_def)
  from drain_quiet [OF assms(1,2) n(1), of net pass] d1
  have q1: "\<not> on (st p1)" "list_all is_mouse_report (sent (st p1))" by simp_all
  show ?thesis
  proof (cases "r1 = Next \<and> prepareshutdown (st p1) = 0")
    case False
    with q1 show ?thesis by (cases r1) (auto simp add: main_iteration_def d1)
  next
    case True
    let ?p2 = "p1\<lparr>st := (st p1)\<lparr>connectionok := False\<rparr>\<rparr>"
    show ?thesis
    proof (cases "it_accept it = Accepted")
      case False
      with True q1 show ?thesis
        by (cases "it_accept it") (simp_all add: main_iteration_def d1 Let_def on_signal_def)
    next
      case acc: True
      let ?p2' = "?p2\<lparr>ctl_chan_open := True, int_chan_open := True\<rparr>"
      obtain r3 p3 where d2: "drain net pass (it_drain2 it) ?p2' = (r3, p3)"
        by (cases "drain net pass (it_drain2 it) ?p2'")
      have "\<not> on (st (snd (drain net pass (it_drain2 it) ?p2')))
            \<and> list_all is_mouse_report (sent (st (snd (drain net pass (it_drain2 it) ?p2'))))"
        by (rule drain_quiet) (use q1 n in simp_all)
      then have q3: "\<not> on (st p3)" "list_all is_mouse_report (sent (st p3))"
        by (simp_all add: d2)
      have m: "main_iteration net pass it p =
                 (case (r3, p3) of
                    (Next, p3) \<Rightarrow> if prepareshutdown (st p3) \<noteq> 0 then (Next, p3)
                                 else session net pass (it_session it) p3
                  | r \<Rightarrow> r)"
        using True acc d2 by (simp add: main_iteration_def d1 Let_def)
      show ?thesis
      proof (cases "r3 = Next \<and> prepareshutdown (st p3) = 0")
        case True
        then have "main_iteration net pass it p = session net pass (it_session it) p3"
          by (simp add: m)
        with session_quiet [OF q3 n(3), of net pass] show ?thesis by simp
      next
        case False
        with q3 show ?thesis by (cases r3) (auto simp add: m)
      qed
    qed
  qed
qed

lemma main_loop_quiet:
  "\<not> on (st p) \<Longrightarrow> list_all is_mouse_report (sent (st p)) \<Longrightarrow> list_all untoggled its \<Longrightarrow>
   \<not> on (st (snd (main_loop net pass its p)))
   \<and> list_all is_mouse_report (sent (st (snd (main_loop net pass its p))))"
proof (induction its arbitrary: p)
  case Nil
  then show ?case by (simp add: teardown_def)
next
  case (Cons it its)
  obtain r p1 where e: "main_iteration net pass it p = (r, p1)"
    by (cases "main_iteration net pass it p")
  from Cons.prems(3) have n: "untoggled it" "list_all untoggled its" by simp_all
  from main_iteration_quiet [OF Cons.prems(1,2) n(1), of net pass] e
  have q: "\<not> on (st p1)" "list_all is_mouse_report (sent (st p1))" by simp_all
  show ?case
  proof (cases "prepareshutdown (st p) \<noteq> 0")
    case True
    with Cons.prems show ?thesis by (simp add: teardown_def)
  next
    case False
    show ?thesis
    proof (cases "r = Next")
      case True
      with False e Cons.IH [OF q n(2)] show ?thesis by simp
    next
      case nn: False
      with False e q show ?thesis by (cases r) simp_all
    qed
  qed
qed

lemma key_update_on:
  "key_update ev u pm md (s\<lparr>on := b\<rparr>) = (key_update ev u pm md s)\<lparr>on := b\<rparr>"
  by (simp add: key_update_def Let_def)

lemma button_update_on:
  "button_update ev (s\<lparr>on := b\<rparr>) = (button_update ev s)\<lparr>on := b\<rparr>"
  by (simp add: button_update_def Let_def)

lemma rel_update_on:
  "rel_update ev (s\<lparr>on := b\<rparr>) = (rel_update ev s)\<lparr>on := b\<rparr>"
  by (simp add: rel_update_def Let_def)

lemma mouse_send_on:
  "mouse_send net (s\<lparr>on := b\<rparr>) = (fst (mouse_send net s), (snd (mouse_send net s))\<lparr>on := b\<rparr>)"
  by (simp add: mouse_send_def Let_def send_def)

lemma key_event_on_update:
  assumes "ev_code ev \<noteq> KEY_SYSRQ"
  shows "modifierkeys (snd (key_event net pass ev (s\<lparr>on := b\<rparr>)))
           = modifierkeys (snd (key_event net pass ev s))"
    and "pressedkey (snd (key_event net pass ev (s\<lparr>on := b\<rparr>)))
           = pressedkey (snd (key_event net pass ev s))"
    and "mousebuttons (snd (key_event net pass ev (s\<lparr>on := b\<rparr>)))
           = mousebuttons (snd (key_event net pass ev s))"
    and "hidrep (snd (key_event net pass ev (s\<lparr>on := b\<rparr>)))
           = hidrep (snd (key_event net pass ev s))"
proof -
  consider (b) "ev_code ev = BTN_LEFT \<or> ev_code ev = BTN_RIGHT \<or> ev_code ev = BTN_MIDDLE"
    | (k) "ev_code ev \<noteq> BTN_LEFT" "ev_code ev \<noteq> BTN_RIGHT" "ev_code ev \<noteq> BTN_MIDDLE"
          "ev_code ev \<noteq> KEY_SYSRQ"
    using assms by blast
  then have "modifierkeys (snd (key_event net pass ev (s\<lparr>on := b\<rparr>)))
           = modifierkeys (snd (key_event net pass ev s))
     \<and> pressedkey (snd (key_event net pass ev (s\<lparr>on := b\<rparr>)))
           = pressedkey (snd (key_event net pass ev s))
     \<and> mousebuttons (snd (key_event net pass ev (s\<lparr>on := b\<rparr>)))
           = mousebuttons (snd (key_event net pass ev s))
     \<and> hidrep (snd (key_event net pass ev (s\<lparr>on := b\<rparr>)))
           = hidrep (snd (key_event net pass ev s))"
  proof cases
    case k
    show ?thesis by (simp add: key_event_regular [OF k] key_tail_def key_update_on)
  next
    case b
    show ?thesis
      by (simp add: key_event_button [OF b] key_tail_def mouse_button_def button_update_on
          mouse_send_on key_update_on)
  qed
  then show "modifierkeys (snd (key_event net pass ev (s\<lparr>on := b\<rparr>)))
           = modifierkeys (snd (key_event net pass ev s))"
    and "pressedkey (snd (key_event net pass ev (s\<lparr>on := b\<rparr>)))
           = pressedkey (snd (key_event net pass ev s))"
    and "mousebuttons (snd (key_event net pass ev (s\<lparr>on := b\<rparr>)))
           = mousebuttons (snd (key_event net pass ev s))"
    and "hidrep (snd (key_event net pass ev (s\<lparr>on := b\<rparr>)))
           = hidrep (snd (key_event net pass ev s))"
    by simp_all
qed

lemma handle_event_on_update:
  assumes "\<not> (ev_type ev = EV_KEY \<and> ev_code ev = KEY_SYSRQ)"
  shows "modifierkeys (snd (handle_event net pass ev (s\<lparr>on := b\<rparr>)))
           = modifierkeys (snd (handle_event net pass ev s))"
    and "pressedkey (snd (handle_event net pass ev (s\<lparr>on := b\<rparr>)))
           = pressedkey (snd (handle_event net pass ev s))"
    and "mousebuttons (snd (handle_event net pass ev (s\<lparr>on := b\<rparr>)))
           = mousebuttons (snd (handle_event net pass ev s))"
    and "hidrep (snd (handle_event net pass ev (s\<lparr>on := b\<rparr>)))
           = hidrep (snd (handle_event net pass ev s))"
proof -
  let ?s = "s\<lparr>loc_j := sizeof_input_event\<rparr>"
  have sw: "s\<lparr>on := b, loc_j := sizeof_input_event\<rparr> = ?s\<lparr>on := b\<rparr>" by simp
  show "modifierkeys (snd (handle_event net pass ev (s\<lparr>on := b\<rparr>)))
           = modifierkeys (snd (handle_event net pass ev s))"
    using assms key_event_on_update(1) [where ev = ev and net = net and pass = pass and s = "?s" and b = b]
    by (simp add: handle_event_def Let_def rel_event_def rel_update_on mouse_send_on sw
        del: state.update_convs)
  show "pressedkey (snd (handle_event net pass ev (s\<lparr>on := b\<rparr>)))
           = pressedkey (snd (handle_event net pass ev s))"
    using assms key_event_on_update(2) [where ev = ev and net = net and pass = pass and s = "?s" and b = b]
    by (simp add: handle_event_def Let_def rel_event_def rel_update_on mouse_send_on sw
        del: state.update_convs)
  show "mousebuttons (snd (handle_event net pass ev (s\<lparr>on := b\<rparr>)))
           = mousebuttons (snd (handle_event net pass ev s))"
    using assms key_event_on_update(3) [where ev = ev and net = net and pass = pass and s = "?s" and b = b]
    by (simp add: handle_event_def Let_def rel_event_def rel_update_on mouse_send_on sw
        del: state.update_convs)
  show "hidrep (snd (handle_event net pass ev (s\<lparr>on := b\<rparr>)))
           = hidrep (snd (handle_event net pass ev s))"
    using assms key_event_on_update(4) [where ev = ev and net = net and pass = pass and s = "?s" and b = b]
    by (simp add: handle_event_def Let_def rel_event_def rel_update_on mouse_send_on sw
        del: state.update_convs)
qed

section \<open>The program starts muted\<close>


text \<open>
  C9, as amended. The program starts muted: \<^verbatim>\<open>on\<close> is 0 when \<^verbatim>\<open>main\<close> enters its loop, and
  as long as the PRINT key is not released, whatever else the devices deliver and however
  many sessions are accepted, every packet sent is a mouse report. One event changes
  \<^verbatim>\<open>on\<close> exactly when it is a release of PRINT with neither the left nor the right
  control key held (other modifier keys do not matter), and then it inverts it. When
  \<^verbatim>\<open>on\<close> is 0 after an event other than the release of PRINT with the left control key
  held, the event has added nothing but mouse reports to the packets sent. For every
  event other than PRINT, the modifier state, the array of pressed keys, the mouse
  buttons and the report built are the same whether \<^verbatim>\<open>on\<close> is 0 or 1.
\<close>

theorem muted_until_print_released:
  "\<not> on (st (init_process x11 dev))
   \<and> (list_all untoggled its \<longrightarrow>
        \<not> on (st (snd (main_loop net pass its (init_process x11 dev))))
        \<and> list_all is_mouse_report (sent (st (snd (main_loop net pass its (init_process x11 dev))))))
   \<and> on (snd (handle_event net pass ev s)) =
        (if print_release ev \<and> modifierkeys s AND 0x1 \<noteq> 0x1 \<and> modifierkeys s AND 0x10 \<noteq> 0x10
         then \<not> on s else on s)
   \<and> (\<not> on (snd (handle_event net pass ev s))
        \<and> \<not> (print_release ev \<and> modifierkeys s AND 0x1 = 0x1) \<longrightarrow>
        take (length (sent s)) (sent (snd (handle_event net pass ev s))) = sent s
        \<and> list_all is_mouse_report (drop (length (sent s)) (sent (snd (handle_event net pass ev s)))))
   \<and> (\<not> (ev_type ev = EV_KEY \<and> ev_code ev = KEY_SYSRQ) \<longrightarrow>
        modifierkeys (snd (handle_event net pass ev (s\<lparr>on := False\<rparr>)))
          = modifierkeys (snd (handle_event net pass ev (s\<lparr>on := True\<rparr>)))
        \<and> pressedkey (snd (handle_event net pass ev (s\<lparr>on := False\<rparr>)))
          = pressedkey (snd (handle_event net pass ev (s\<lparr>on := True\<rparr>)))
        \<and> mousebuttons (snd (handle_event net pass ev (s\<lparr>on := False\<rparr>)))
          = mousebuttons (snd (handle_event net pass ev (s\<lparr>on := True\<rparr>)))
        \<and> hidrep (snd (handle_event net pass ev (s\<lparr>on := False\<rparr>)))
          = hidrep (snd (handle_event net pass ev (s\<lparr>on := True\<rparr>))))"
proof -
  let ?p = "init_process x11 dev"
  have a: "\<not> on (st ?p)" "list_all is_mouse_report (sent (st ?p))"
    by (simp_all add: init_process_def init_state_def)
  have b: "list_all untoggled its \<longrightarrow>
        \<not> on (st (snd (main_loop net pass its ?p)))
        \<and> list_all is_mouse_report (sent (st (snd (main_loop net pass its ?p))))"
    using main_loop_quiet [OF a, of its net pass] by simp
  have c: "on (snd (handle_event net pass ev s)) =
        (if print_release ev \<and> modifierkeys s AND 0x1 \<noteq> 0x1 \<and> modifierkeys s AND 0x10 \<noteq> 0x10
         then \<not> on s else on s)"
    by (simp add: handle_event_on print_release_def)
  have d: "take (length (sent s)) (sent (snd (handle_event net pass ev s))) = sent s
        \<and> list_all is_mouse_report (drop (length (sent s)) (sent (snd (handle_event net pass ev s))))"
    if "\<not> on (snd (handle_event net pass ev s))"
      and "\<not> (print_release ev \<and> modifierkeys s AND 0x1 = 0x1)"
  proof -
    have "\<exists>new. sent (snd (handle_event net pass ev s)) = sent s @ new
               \<and> list_all is_mouse_report new"
      by (rule handle_event_muted [OF that(1)]) (use that(2) in \<open>auto simp add: print_release_def\<close>)
    then show ?thesis by auto
  qed
  have e: "modifierkeys (snd (handle_event net pass ev (s\<lparr>on := False\<rparr>)))
          = modifierkeys (snd (handle_event net pass ev (s\<lparr>on := True\<rparr>)))
        \<and> pressedkey (snd (handle_event net pass ev (s\<lparr>on := False\<rparr>)))
          = pressedkey (snd (handle_event net pass ev (s\<lparr>on := True\<rparr>)))
        \<and> mousebuttons (snd (handle_event net pass ev (s\<lparr>on := False\<rparr>)))
          = mousebuttons (snd (handle_event net pass ev (s\<lparr>on := True\<rparr>)))
        \<and> hidrep (snd (handle_event net pass ev (s\<lparr>on := False\<rparr>)))
          = hidrep (snd (handle_event net pass ev (s\<lparr>on := True\<rparr>)))"
    if "\<not> (ev_type ev = EV_KEY \<and> ev_code ev = KEY_SYSRQ)"
    by (simp only: handle_event_on_update [OF that])
  from a(1) b c d e show ?thesis by blast
qed

text \<open>
  The claim as stated fails. A session is accepted, the left alt key is pressed (the
  modifier state is then 0x8004), and PRINT is pressed and released with the alt key
  still held: \<^verbatim>\<open>on\<close> becomes 1 all the same, and the release itself and the following
  key A each send a keyboard report. PRINT has never been released with no modifier
  held.
\<close>

theorem print_with_alt_unmutes_counterexample:
  "modifierkeys (st (snd (main_loop (\<lambda>n. 11) []
        [\<lparr>it_drain1 = [], it_accept = Accepted, it_drain2 = [],
          it_session = [[Read_event \<lparr>ev_type = EV_KEY, ev_code = KEY_LEFTALT, ev_value = 1\<rparr>],
                        [Read_event \<lparr>ev_type = EV_KEY, ev_code = KEY_SYSRQ, ev_value = 1\<rparr>]]\<rparr>]
        (init_process False 0)))) = 0x8004
   \<and> (\<lambda>(t, p). (t, on (st p), modifierkeys (st p), sent (st p), list_all is_keyb_report (sent (st p))))
       (main_loop (\<lambda>n. 11) []
        [\<lparr>it_drain1 = [], it_accept = Accepted, it_drain2 = [],
          it_session = [[Read_event \<lparr>ev_type = EV_KEY, ev_code = KEY_LEFTALT, ev_value = 1\<rparr>],
                        [Read_event \<lparr>ev_type = EV_KEY, ev_code = KEY_SYSRQ, ev_value = 1\<rparr>],
                        [Read_event \<lparr>ev_type = EV_KEY, ev_code = KEY_SYSRQ, ev_value = 0\<rparr>],
                        [Read_event \<lparr>ev_type = EV_KEY, ev_code = KEY_A, ev_value = 1\<rparr>]]\<rparr>]
        (init_process False 0))
     = (Waiting, True, 0x8004,
        [[0xA1, 2, 0, 0, 0, 0, 0, 0, 0, 0, 0], [0xA1, 2, 0, 0x18, 0, 0, 0, 0, 0, 0, 0]], True)"
  by code_simp

theorem muted_until_print_released_witness:
  "list_all untoggled
     [\<lparr>it_drain1 = [[Read_event \<lparr>ev_type = EV_KEY, ev_code = KEY_B, ev_value = 1\<rparr>]],
       it_accept = Accepted, it_drain2 = [],
       it_session = [[Read_event \<lparr>ev_type = EV_KEY, ev_code = KEY_A, ev_value = 1\<rparr>],
                     [Read_event \<lparr>ev_type = EV_KEY, ev_code = BTN_LEFT, ev_value = 1\<rparr>]]\<rparr>]
   \<and> list_all is_mouse_report (sent (st (snd (main_loop (\<lambda>n. 11) []
     [\<lparr>it_drain1 = [[Read_event \<lparr>ev_type = EV_KEY, ev_code = KEY_B, ev_value = 1\<rparr>]],
       it_accept = Accepted, it_drain2 = [],
       it_session = [[Read_event \<lparr>ev_type = EV_KEY, ev_code = KEY_A, ev_value = 1\<rparr>],
                     [Read_event \<lparr>ev_type = EV_KEY, ev_code = BTN_LEFT, ev_value = 1\<rparr>]]\<rparr>]
     (init_process False 0)))))
   \<and> \<not> on (snd (handle_event (\<lambda>n. 11) [] \<lparr>ev_type = EV_KEY, ev_code = KEY_A, ev_value = 1\<rparr>
              (init_state\<lparr>connectionok := True\<rparr>)))
   \<and> \<not> (print_release \<lparr>ev_type = EV_KEY, ev_code = KEY_A, ev_value = 1\<rparr>
          \<and> modifierkeys (init_state\<lparr>connectionok := True\<rparr>) AND 0x1 = 0x1)
   \<and> list_all is_mouse_report (drop (length (sent (init_state\<lparr>connectionok := True\<rparr>)))
        (sent (snd (handle_event (\<lambda>n. 11) [] \<lparr>ev_type = EV_KEY, ev_code = KEY_A, ev_value = 1\<rparr>
              (init_state\<lparr>connectionok := True\<rparr>)))))
   \<and> \<not> (ev_type \<lparr>ev_type = EV_KEY, ev_code = KEY_A, ev_value = 1\<rparr> = EV_KEY
          \<and> ev_code \<lparr>ev_type = EV_KEY, ev_code = KEY_A, ev_value = 1\<rparr> = KEY_SYSRQ)
   \<and> pressedkey (snd (handle_event (\<lambda>n. 11) [] \<lparr>ev_type = EV_KEY, ev_code = KEY_A, ev_value = 1\<rparr>
              (init_state\<lparr>connectionok := True, on := False\<rparr>)))
       = pressedkey (snd (handle_event (\<lambda>n. 11) [] \<lparr>ev_type = EV_KEY, ev_code = KEY_A, ev_value = 1\<rparr>
              (init_state\<lparr>connectionok := True, on := True\<rparr>)))"
proof -
  let ?its = "[\<lparr>it_drain1 = [[Read_event \<lparr>ev_type = EV_KEY, ev_code = KEY_B, ev_value = 1\<rparr>]],
       it_accept = Accepted, it_drain2 = [],
       it_session = [[Read_event \<lparr>ev_type = EV_KEY, ev_code = KEY_A, ev_value = 1\<rparr>],
                     [Read_event \<lparr>ev_type = EV_KEY, ev_code = BTN_LEFT, ev_value = 1\<rparr>]]\<rparr>]"
  let ?ev = "\<lparr>ev_type = EV_KEY, ev_code = KEY_A, ev_value = 1\<rparr>"
  let ?s = "init_state\<lparr>connectionok := True\<rparr>"
  have h1: "list_all untoggled ?its" by code_simp
  have h2: "\<not> on (snd (handle_event (\<lambda>n. 11) [] ?ev ?s))" by code_simp
  have h3: "\<not> (print_release ?ev \<and> modifierkeys ?s AND 0x1 = 0x1)" by code_simp
  have h4: "\<not> (ev_type ?ev = EV_KEY \<and> ev_code ?ev = KEY_SYSRQ)" by simp
  note t = muted_until_print_released [of False 0 ?its "\<lambda>n. 11" "[]" ?ev ?s]
  from t h1 h2 h3 h4 show ?thesis by blast
qed

section \<open>Two runs on the same events\<close>


lemma key_update_forgets:
  "key_update ev u pm md (s\<lparr>hidrep := h\<rparr>) = key_update ev u pm md s"
  by (simp add: key_update_def Let_def)

lemma button_update_forgets: "button_update ev (s\<lparr>hidrep := h\<rparr>) = button_update ev s"
  by (simp add: button_update_def Let_def)

lemma rel_update_forgets: "rel_update ev (s\<lparr>hidrep := h\<rparr>) = rel_update ev s"
  by (simp add: rel_update_def Let_def)

lemma pass_loop_forgets:
  "pass_loop net ps md (s\<lparr>hidrep := h\<rparr>) =
     (if ps = [] then (Continue, md, s\<lparr>hidrep := h\<rparr>) else pass_loop net ps md s)"
  by (cases ps) (simp_all add: Let_def)

lemma hidrep_same: "s\<lparr>hidrep := hidrep s\<rparr> = s"
  by simp

lemma sysrq_key_forgets:
  "\<exists>g. sysrq_key net pass ev (s\<lparr>hidrep := h\<rparr>) =
         (fst (sysrq_key net pass ev s), fst (snd (sysrq_key net pass ev s)),
          (snd (snd (sysrq_key net pass ev s)))\<lparr>hidrep := g\<rparr>)"
proof -
  consider (o) "ev_value ev \<noteq> 0"
    | (t) "ev_value ev = 0" "modifierkeys s AND 0x1 = 0x1"
    | (p) "ev_value ev = 0" "modifierkeys s AND 0x1 \<noteq> 0x1" "modifierkeys s AND 0x10 = 0x10"
    | (g) "ev_value ev = 0" "modifierkeys s AND 0x1 \<noteq> 0x1" "modifierkeys s AND 0x10 \<noteq> 0x10"
    by blast
  then show ?thesis
  proof cases
    case o
    then show ?thesis by (intro exI [of _ h]) (simp add: sysrq_other)
  next
    case t
    show ?thesis
    proof (cases "connectionok s")
      case True
      with t show ?thesis
        by (intro exI [of _ "keyb_report 0 (replicate 8 0)"]) (simp add: sysrq_terminate send_def)
    next
      case False
      with t show ?thesis by (intro exI [of _ h]) (simp add: sysrq_terminate)
    qed
  next
    case g
    then show ?thesis by (intro exI [of _ h]) (simp add: sysrq_toggle)
  next
    case p
    show ?thesis
    proof (cases "pass = []")
      case True
      with p show ?thesis by (intro exI [of _ h]) (simp add: sysrq_pass)
    next
      case False
      let ?X = "sysrq_key net pass ev s"
      from p have p': "ev_value ev = 0" "modifierkeys (s\<lparr>hidrep := h\<rparr>) AND 0x1 \<noteq> 0x1"
        "modifierkeys (s\<lparr>hidrep := h\<rparr>) AND 0x10 = 0x10" by simp_all
      have "sysrq_key net pass ev (s\<lparr>hidrep := h\<rparr>) = ?X"
        using False by (simp add: sysrq_pass [OF p] sysrq_pass [OF p'] pass_loop_forgets)
      then show ?thesis
        by (intro exI [of _ "hidrep (snd (snd ?X))"]) simp
    qed
  qed
qed

lemma key_event_forgets:
  "\<exists>g. key_event net pass ev (s\<lparr>hidrep := h\<rparr>) =
         (fst (key_event net pass ev s), (snd (key_event net pass ev s))\<lparr>hidrep := g\<rparr>)"
proof -
  consider (b) "ev_code ev = BTN_LEFT \<or> ev_code ev = BTN_RIGHT \<or> ev_code ev = BTN_MIDDLE"
    | (p) "ev_code ev = KEY_SYSRQ"
    | (k) "ev_code ev \<noteq> BTN_LEFT" "ev_code ev \<noteq> BTN_RIGHT" "ev_code ev \<noteq> BTN_MIDDLE"
          "ev_code ev \<noteq> KEY_SYSRQ"
    by blast
  then show ?thesis
  proof cases
    case k
    have "key_event net pass ev (s\<lparr>hidrep := h\<rparr>) = key_event net pass ev s"
      by (simp add: key_event_regular [OF k] key_tail_def key_update_forgets)
    then show ?thesis
      by (intro exI [of _ "hidrep (snd (key_event net pass ev s))"]) simp
  next
    case b
    have "key_event net pass ev (s\<lparr>hidrep := h\<rparr>) = key_event net pass ev s"
      by (simp add: key_event_button [OF b] mouse_button_def button_update_forgets)
    then show ?thesis
      by (intro exI [of _ "hidrep (snd (key_event net pass ev s))"]) simp
  next
    case p
    let ?X = "sysrq_key net pass ev s"
    from sysrq_key_forgets [where net = net and pass = pass and ev = ev and s = s and h = h] obtain g where
      g: "sysrq_key net pass ev (s\<lparr>hidrep := h\<rparr>) =
            (fst ?X, fst (snd ?X), (snd (snd ?X))\<lparr>hidrep := g\<rparr>)" by blast
    show ?thesis
    proof (cases "fst ?X = Continue")
      case True
      have "key_event net pass ev (s\<lparr>hidrep := h\<rparr>) = key_event net pass ev s"
        using True by (simp add: key_event_sysrq [OF p] g key_tail_def key_update_forgets)
      then show ?thesis
        by (intro exI [of _ "hidrep (snd (key_event net pass ev s))"]) simp
    next
      case False
      then show ?thesis by (intro exI [of _ g]) (simp add: key_event_sysrq [OF p] g)
    qed
  qed
qed

lemma handle_event_forgets:
  "\<exists>g. handle_event net pass ev (s\<lparr>loc_j := a, hidrep := h\<rparr>) =
         (fst (handle_event net pass ev s), (snd (handle_event net pass ev s))\<lparr>hidrep := g\<rparr>)"
proof -
  let ?s = "s\<lparr>loc_j := sizeof_input_event\<rparr>"
  have sw: "s\<lparr>loc_j := a, hidrep := h, loc_j := sizeof_input_event\<rparr> = ?s\<lparr>hidrep := h\<rparr>"
    by simp
  show ?thesis
  proof (cases "ev_type ev = EV_KEY")
    case True
    with key_event_forgets [where net = net and pass = pass and ev = ev and s = "?s" and h = h] show ?thesis
      by (simp add: handle_event_def Let_def sw del: state.update_convs)
  next
    case False
    show ?thesis
    proof (cases "ev_type ev = EV_REL \<and> (ev_code ev = ABS_X \<or> ev_code ev = ABS_Y
                   \<or> ev_code ev = ABS_Z \<or> ev_code ev = REL_WHEEL)")
      case True
      have "handle_event net pass ev (s\<lparr>loc_j := a, hidrep := h\<rparr>) = handle_event net pass ev s"
        using True by (simp add: handle_event_def Let_def rel_event_def sw rel_update_forgets
            del: state.update_convs)
      then show ?thesis
        by (intro exI [of _ "hidrep (snd (handle_event net pass ev s))"]) simp
    next
      case r: False
      with False show ?thesis
        by (intro exI [of _ h]) (auto simp add: handle_event_def Let_def rel_event_def)
    qed
  qed
qed

lemma same_globals_refl [simp]: "same_globals s s"
  by (simp add: same_globals_def)

lemma same_globals_sym: "same_globals s t \<Longrightarrow> same_globals t s"
  by (simp add: same_globals_def)

lemma same_globals_trans: "same_globals s t \<Longrightarrow> same_globals t u \<Longrightarrow> same_globals s u"
  by (simp add: same_globals_def)

lemma same_globals_locals [simp]:
  "same_globals (s\<lparr>loc_j := a\<rparr>) t = same_globals s t"
  "same_globals (s\<lparr>hidrep := h\<rparr>) t = same_globals s t"
  "same_globals s (t\<lparr>loc_j := a\<rparr>) = same_globals s t"
  "same_globals s (t\<lparr>hidrep := h\<rparr>) = same_globals s t"
  by (simp_all add: same_globals_def)

lemma same_globalsD:
  "same_globals s t \<Longrightarrow> t = s\<lparr>loc_j := loc_j t, hidrep := hidrep t\<rparr>"
  by (cases s, cases t) (simp add: same_globals_def)

lemma same_globals_fields:
  assumes "same_globals s t"
  shows "sent s = sent t" "on s = on t" "connectionok s = connectionok t"
    "modifierkeys s = modifierkeys t" "pressedkey s = pressedkey t"
    "mousebuttons s = mousebuttons t" "prepareshutdown s = prepareshutdown t"
    "xinput s = xinput t"
  using assms by (cases s, cases t, simp add: same_globals_def)+

lemma same_globals_connectionok:
  "same_globals s t \<Longrightarrow> same_globals (s\<lparr>connectionok := b\<rparr>) (t\<lparr>connectionok := b\<rparr>)"
  by (cases s, cases t) (simp add: same_globals_def)

lemma same_globals_prepareshutdown:
  "same_globals s t \<Longrightarrow> same_globals (s\<lparr>prepareshutdown := b\<rparr>) (t\<lparr>prepareshutdown := b\<rparr>)"
  by (cases s, cases t) (simp add: same_globals_def)

lemma handle_event_same:
  assumes "same_globals s t"
  shows "fst (handle_event net pass ev s) = fst (handle_event net pass ev t)"
    and "same_globals (snd (handle_event net pass ev s)) (snd (handle_event net pass ev t))"
proof -
  from handle_event_forgets [where net = net and pass = pass and ev = ev and s = s
      and a = "loc_j t" and h = "hidrep t"] same_globalsD [OF assms]
  obtain g where g: "handle_event net pass ev t =
      (fst (handle_event net pass ev s), (snd (handle_event net pass ev s))\<lparr>hidrep := g\<rparr>)"
    by auto
  show "fst (handle_event net pass ev s) = fst (handle_event net pass ev t)"
    by (simp add: g)
  show "same_globals (snd (handle_event net pass ev s)) (snd (handle_event net pass ev t))"
    by (simp add: g)
qed

lemma feed_same:
  "same_globals s t \<Longrightarrow>
   fst (feed net pass evs s) = fst (feed net pass evs t)
   \<and> same_globals (snd (feed net pass evs s)) (snd (feed net pass evs t))"
proof (induction evs arbitrary: s t)
  case Nil
  then show ?case by simp
next
  case (Cons ev evs)
  obtain r s1 where e: "handle_event net pass ev s = (r, s1)"
    by (cases "handle_event net pass ev s")
  obtain r' t1 where e': "handle_event net pass ev t = (r', t1)"
    by (cases "handle_event net pass ev t")
  from handle_event_same [OF Cons.prems, of net pass ev] e e'
  have q: "r' = r" "same_globals s1 t1" by simp_all
  show ?case
  proof (cases "r = Continue")
    case True
    with Cons.IH [OF q(2)] e e' q(1) show ?thesis by simp
  next
    case False
    with e e' q show ?thesis by (cases r) simp_all
  qed
qed

lemma feed_append:
  "feed net pass (xs @ ys) s =
     (if fst (feed net pass xs s) = Continue then feed net pass ys (snd (feed net pass xs s))
      else feed net pass xs s)"
proof (induction xs arbitrary: s)
  case Nil
  show ?case by simp
next
  case (Cons ev xs)
  obtain r s1 where e: "handle_event net pass ev s = (r, s1)"
    by (cases "handle_event net pass ev s")
  show ?case
  proof (cases "r = Continue")
    case True
    with Cons.IH [of s1] e show ?thesis by simp
  next
    case False
    with e show ?thesis by (cases r) simp_all
  qed
qed

lemma feed_outcome:
  "fst (feed net pass evs s) \<in> {Continue, Return (- 1), Exit 0, Fault}"
proof (induction evs arbitrary: s)
  case Nil
  show ?case by simp
next
  case (Cons ev evs)
  obtain r s1 where e: "handle_event net pass ev s = (r, s1)"
    by (cases "handle_event net pass ev s")
  from handle_event_outcome [of net pass ev s] e
  have r: "r = Continue \<or> r = Return (- 1) \<or> r = Exit 0 \<or> r = Fault" by simp
  show ?case
  proof (cases "r = Continue")
    case True
    with Cons.IH [of s1] e show ?thesis by simp
  next
    case False
    with e r show ?thesis by auto
  qed
qed

lemma parse_loop_feed:
  "fst (parse_loop net pass rs s) =
     (if fst (feed net pass (events rs) s) = Continue then Return 0
      else fst (feed net pass (events rs) s))
   \<and> same_globals (snd (parse_loop net pass rs s)) (snd (feed net pass (events rs) s))"
proof (induction rs arbitrary: s)
  case Nil
  show ?case by simp
next
  case (Cons rd rs)
  show ?case
  proof (cases rd)
    case (Read_short n)
    have g: "same_globals (s\<lparr>loc_j := n\<rparr>) s" by simp
    from feed_same [OF g, of net pass "events rs"] Cons.IH [of "s\<lparr>loc_j := n\<rparr>"] Read_short
    show ?thesis by (auto intro: same_globals_trans)
  next
    case (Read_event ev)
    obtain r s1 where e: "handle_event net pass ev s = (r, s1)"
      by (cases "handle_event net pass ev s")
    show ?thesis
    proof (cases "r = Continue")
      case True
      with Cons.IH [of s1] e Read_event show ?thesis by simp
    next
      case False
      with e Read_event show ?thesis by (cases r) simp_all
    qed
  qed
qed

lemma events_of_simps [simp]:
  "events_of [] = []"
  "events_of (rs # rounds) = events rs @ events_of rounds"
  by (simp_all add: events_of_def)

lemma connected_feed:
  "fst (connected net pass rounds p) =
     (case fst (feed net pass (events_of rounds) (st p)) of
        Continue \<Rightarrow> Waiting | Return j \<Rightarrow> Next | Exit n \<Rightarrow> Stopped n | Fault \<Rightarrow> Crashed)
   \<and> same_globals (st (snd (connected net pass rounds p)))
        (if fst (feed net pass (events_of rounds) (st p)) = Return (- 1)
         then (snd (feed net pass (events_of rounds) (st p)))\<lparr>connectionok := False\<rparr>
         else snd (feed net pass (events_of rounds) (st p)))"
proof (induction rounds arbitrary: p)
  case Nil
  show ?case by simp
next
  case (Cons rs rounds)
  let ?F1 = "feed net pass (events rs) (st p)"
  obtain r s where e: "parse_loop net pass rs (st p) = (r, s)"
    by (cases "parse_loop net pass rs (st p)")
  from parse_loop_feed [of net pass rs "st p"] e
  have pf: "r = (if fst ?F1 = Continue then Return 0 else fst ?F1)" "same_globals s (snd ?F1)"
    by simp_all
  from feed_outcome [of net pass "events rs" "st p"]
  have o: "fst ?F1 = Continue \<or> fst ?F1 = Return (- 1) \<or> fst ?F1 = Exit 0 \<or> fst ?F1 = Fault"
    by simp
  from o show ?case
  proof (elim disjE)
    assume c: "fst ?F1 = Continue"
    let ?p = "p\<lparr>st := s\<rparr>"
    let ?G = "feed net pass (events_of rounds) s"
    let ?H = "feed net pass (events_of rounds) (snd ?F1)"
    have cc: "connected net pass (rs # rounds) p = connected net pass rounds ?p"
      using c pf(1) e by (simp add: parse_events_def)
    have fa: "feed net pass (events_of (rs # rounds)) (st p) = ?H"
      using c by (simp add: feed_append)
    from feed_same [OF pf(2), of net pass "events_of rounds"]
    have gh: "fst ?G = fst ?H" "same_globals (snd ?G) (snd ?H)" by simp_all
    from Cons.IH [of ?p]
    have ih: "fst (connected net pass rounds ?p) =
                (case fst ?G of Continue \<Rightarrow> Waiting | Return j \<Rightarrow> Next
                 | Exit n \<Rightarrow> Stopped n | Fault \<Rightarrow> Crashed)"
      "same_globals (st (snd (connected net pass rounds ?p)))
         (if fst ?G = Return (- 1) then (snd ?G)\<lparr>connectionok := False\<rparr> else snd ?G)"
      by (simp_all cong: if_cong)
    have "same_globals (if fst ?G = Return (- 1) then (snd ?G)\<lparr>connectionok := False\<rparr> else snd ?G)
            (if fst ?H = Return (- 1) then (snd ?H)\<lparr>connectionok := False\<rparr> else snd ?H)"
      using gh by (simp add: same_globals_connectionok)
    with ih(2) have "same_globals (st (snd (connected net pass rounds ?p)))
            (if fst ?H = Return (- 1) then (snd ?H)\<lparr>connectionok := False\<rparr> else snd ?H)"
      by (rule same_globals_trans)
    with ih(1) gh(1) show ?thesis unfolding cc fa by simp
  next
    assume c: "fst ?F1 = Return (- 1)"
    have fa: "feed net pass (events_of (rs # rounds)) (st p) = ?F1"
      using c by (simp add: feed_append)
    from c pf e show ?thesis unfolding fa
      by (simp add: parse_events_def same_globals_connectionok)
  next
    assume c: "fst ?F1 = Exit 0"
    have fa: "feed net pass (events_of (rs # rounds)) (st p) = ?F1"
      using c by (simp add: feed_append)
    from c pf e show ?thesis unfolding fa by (simp add: parse_events_def)
  next
    assume c: "fst ?F1 = Fault"
    have fa: "feed net pass (events_of (rs # rounds)) (st p) = ?F1"
      using c by (simp add: feed_append)
    from c pf e show ?thesis unfolding fa by (simp add: parse_events_def)
  qed
qed

lemma same_process_refl [simp]: "same_process p p"
  by (simp add: same_process_def)

lemma key_update_j:
  "key_update ev u pm md (s\<lparr>loc_j := a\<rparr>) =
     (if ev_value ev = 1 \<or> ev_value ev = 0 then key_update ev u pm md s
      else (key_update ev u pm md s)\<lparr>loc_j := a\<rparr>)"
  by (simp add: key_update_def Let_def split: prod.splits)

lemma key_update_j_other:
  "\<not> (ev_value ev = 1 \<or> ev_value ev = 0) \<Longrightarrow> loc_j (key_update ev u pm md s) = loc_j s"
  by (simp add: key_update_def Let_def)

lemma keyb_send_net:
  assumes "\<forall>n. (1 \<le> net n) = (1 \<le> net' n)" and "(1 > a) = (1 > loc_j s)"
  shows "\<exists>a'. keyb_send net' (s\<lparr>loc_j := a\<rparr>)
               = (fst (keyb_send net s), (snd (keyb_send net s))\<lparr>loc_j := a'\<rparr>)
             \<and> (1 > a') = (1 > loc_j (snd (keyb_send net s)))"
proof (cases "connectionok s \<and> on s")
  case True
  from assms(1) have "(1 > net (length (sent s))) = (1 > net' (length (sent s)))"
    by (simp add: not_le [symmetric])
  with True show ?thesis
    by (intro exI [of _ "net' (length (sent s))"]) (simp add: keyb_send_def send_def Let_def)
next
  case False
  with assms(2) show ?thesis
    by (intro exI [of _ a]) (auto simp add: keyb_send_def)
qed

lemma mouse_send_net:
  assumes "\<forall>n. (1 \<le> net n) = (1 \<le> net' n)" and "(1 > a) = (1 > loc_j s)"
  shows "\<exists>a'. mouse_send net' (s\<lparr>loc_j := a\<rparr>)
               = (fst (mouse_send net s), (snd (mouse_send net s))\<lparr>loc_j := a'\<rparr>)
             \<and> (1 > a') = (1 > loc_j (snd (mouse_send net s)))"
proof (cases "connectionok s")
  case True
  from assms(1) have "(1 > net (length (sent s))) = (1 > net' (length (sent s)))"
    by (simp add: not_le [symmetric])
  with True show ?thesis
    by (intro exI [of _ "net' (length (sent s))"]) (simp add: mouse_send_def send_def Let_def)
next
  case False
  with assms(2) show ?thesis
    by (intro exI [of _ a]) (auto simp add: mouse_send_def)
qed

lemma key_tail_net:
  assumes "\<forall>n. (1 \<le> net n) = (1 \<le> net' n)" and "(1 > a) = (1 > loc_j s)"
  shows "\<exists>a'. key_tail net' ev u pm md (s\<lparr>loc_j := a\<rparr>)
               = (fst (key_tail net ev u pm md s), (snd (key_tail net ev u pm md s))\<lparr>loc_j := a'\<rparr>)
             \<and> (1 > a') = (1 > loc_j (snd (key_tail net ev u pm md s)))"
proof (cases "ev_value ev = 1 \<or> ev_value ev = 0")
  case True
  let ?k = "key_update ev u pm md s"
  have e: "key_update ev u pm md (s\<lparr>loc_j := a\<rparr>) = ?k\<lparr>loc_j := loc_j ?k\<rparr>"
    using True by (simp add: key_update_j)
  from keyb_send_net [OF assms(1), of "loc_j ?k" ?k]
  show ?thesis unfolding key_tail_def e by simp
next
  case False
  let ?k = "key_update ev u pm md s"
  have e: "key_update ev u pm md (s\<lparr>loc_j := a\<rparr>) = ?k\<lparr>loc_j := a\<rparr>"
    using False by (simp add: key_update_j)
  have "(1 > a) = (1 > loc_j ?k)" using assms(2) False by (simp add: key_update_j_other)
  from keyb_send_net [OF assms(1) this]
  show ?thesis unfolding key_tail_def e by simp
qed


lemma mouse_button_net:
  assumes "\<forall>n. (1 \<le> net n) = (1 \<le> net' n)" and "(1 > a) = (1 > loc_j s)"
  shows "\<exists>a'. mouse_button net' ev (s\<lparr>loc_j := a\<rparr>)
               = (fst (mouse_button net ev s), (snd (mouse_button net ev s))\<lparr>loc_j := a'\<rparr>)
             \<and> (1 > a') = (1 > loc_j (snd (mouse_button net ev s)))"
proof -
  have e: "button_update ev (s\<lparr>loc_j := a\<rparr>) = (button_update ev s)\<lparr>loc_j := a\<rparr>"
    by (simp add: button_update_def Let_def)
  have "(1 > a) = (1 > loc_j (button_update ev s))" using assms(2) by simp
  from mouse_send_net [OF assms(1) this]
  show ?thesis unfolding mouse_button_def e by simp
qed

lemma pass_loop_net:
  assumes "\<forall>n. (1 \<le> net n) = (1 \<le> net' n)"
  shows "(1 > a) = (1 > loc_j s) \<Longrightarrow>
     \<exists>a'. pass_loop net' ps md (s\<lparr>loc_j := a\<rparr>)
            = (fst (pass_loop net ps md s), fst (snd (pass_loop net ps md s)),
               (snd (snd (pass_loop net ps md s)))\<lparr>loc_j := a'\<rparr>)
          \<and> (1 > a') = (1 > loc_j (snd (snd (pass_loop net ps md s))))"
proof (induction ps arbitrary: md s a)
  case Nil
  then show ?case by (intro exI [of _ a]) simp
next
  case (Cons p ps)
  let ?s2 = "s\<lparr>pressedkey := (pressedkey s)[0 := snd p],
               hidrep := keyb_report (fst p) ((pressedkey s)[0 := snd p])\<rparr>"
  have sw: "s\<lparr>loc_j := a, pressedkey := (pressedkey s)[0 := snd p],
               hidrep := keyb_report (fst p) ((pressedkey s)[0 := snd p])\<rparr> = ?s2\<lparr>loc_j := a\<rparr>"
    by simp
  show ?case
  proof (cases "connectionok s")
    case False
    with Cons.prems show ?thesis by (intro exI [of _ a]) (simp add: Let_def)
  next
    case True
    obtain r s3 where e: "keyb_send net ?s2 = (r, s3)" by (cases "keyb_send net ?s2")
    have "(1 > a) = (1 > loc_j ?s2)" using Cons.prems by simp
    from keyb_send_net [OF assms this] e obtain a1 where
      a1: "keyb_send net' (?s2\<lparr>loc_j := a\<rparr>) = (r, s3\<lparr>loc_j := a1\<rparr>)"
        "(1 > a1) = (1 > loc_j s3)" by auto
    show ?thesis
    proof (cases "r = Continue")
      case c: True
      have l: "pass_loop net (p # ps) md s = pass_loop net ps (fst p) s3"
        using True c e by (simp add: Let_def)
      have r: "pass_loop net' (p # ps) md (s\<lparr>loc_j := a\<rparr>)
                 = pass_loop net' ps (fst p) (s3\<lparr>loc_j := a1\<rparr>)"
        using True c a1(1) by (simp add: Let_def sw del: state.update_convs)
      from Cons.IH [OF a1(2), of "fst p"] show ?thesis unfolding l r .
    next
      case False
      have l: "pass_loop net (p # ps) md s = (r, fst p, s3)"
        using True False e by (cases r) (simp_all add: Let_def)
      have r: "pass_loop net' (p # ps) md (s\<lparr>loc_j := a\<rparr>) = (r, fst p, s3\<lparr>loc_j := a1\<rparr>)"
        using True False a1(1) by (cases r) (simp_all add: Let_def sw del: state.update_convs)
      from a1(2) show ?thesis unfolding l r by (intro exI [of _ a1]) simp
    qed
  qed
qed

lemma sysrq_key_net:
  assumes "\<forall>n. (1 \<le> net n) = (1 \<le> net' n)" and "(1 > a) = (1 > loc_j s)"
  shows "\<exists>a'. sysrq_key net' pass ev (s\<lparr>loc_j := a\<rparr>)
               = (fst (sysrq_key net pass ev s), fst (snd (sysrq_key net pass ev s)),
                  (snd (snd (sysrq_key net pass ev s)))\<lparr>loc_j := a'\<rparr>)
             \<and> (1 > a') = (1 > loc_j (snd (snd (sysrq_key net pass ev s))))"
proof -
  consider (o) "ev_value ev \<noteq> 0"
    | (t) "ev_value ev = 0" "modifierkeys s AND 0x1 = 0x1"
    | (p) "ev_value ev = 0" "modifierkeys s AND 0x1 \<noteq> 0x1" "modifierkeys s AND 0x10 = 0x10"
    | (g) "ev_value ev = 0" "modifierkeys s AND 0x1 \<noteq> 0x1" "modifierkeys s AND 0x10 \<noteq> 0x10"
    by blast
  then show ?thesis
  proof cases
    case o
    with assms(2) show ?thesis by (intro exI [of _ a]) (simp add: sysrq_other)
  next
    case t
    show ?thesis
    proof (cases "connectionok s")
      case True
      from assms(1) have "(1 > net (length (sent s))) = (1 > net' (length (sent s)))"
        by (simp add: not_le [symmetric])
      with t True show ?thesis
        by (intro exI [of _ "net' (length (sent s))"]) (simp add: sysrq_terminate send_def)
    next
      case False
      with t assms(2) show ?thesis by (intro exI [of _ a]) (simp add: sysrq_terminate)
    qed
  next
    case g
    with assms(2) show ?thesis by (intro exI [of _ a]) (simp add: sysrq_toggle)
  next
    case p
    let ?P = "pass_loop net pass 0 s"
    from p have p': "ev_value ev = 0" "modifierkeys (s\<lparr>loc_j := a\<rparr>) AND 0x1 \<noteq> 0x1"
      "modifierkeys (s\<lparr>loc_j := a\<rparr>) AND 0x10 = 0x10" by simp_all
    from pass_loop_net [OF assms, of pass 0] obtain a1 where
      a1: "pass_loop net' pass 0 (s\<lparr>loc_j := a\<rparr>) = (fst ?P, fst (snd ?P), (snd (snd ?P))\<lparr>loc_j := a1\<rparr>)"
        "(1 > a1) = (1 > loc_j (snd (snd ?P)))" by blast
    obtain r md s1 where e: "?P = (r, md, s1)" by (cases ?P)
    from a1 e show ?thesis
      by (intro exI [of _ a1]) (cases r; simp add: sysrq_pass [OF p] sysrq_pass [OF p'])
  qed
qed

lemma key_event_net:
  assumes "\<forall>n. (1 \<le> net n) = (1 \<le> net' n)" and "(1 > a) = (1 > loc_j s)"
  shows "\<exists>a'. key_event net' pass ev (s\<lparr>loc_j := a\<rparr>)
               = (fst (key_event net pass ev s), (snd (key_event net pass ev s))\<lparr>loc_j := a'\<rparr>)"
proof -
  consider (b) "ev_code ev = BTN_LEFT \<or> ev_code ev = BTN_RIGHT \<or> ev_code ev = BTN_MIDDLE"
    | (p) "ev_code ev = KEY_SYSRQ"
    | (k) "ev_code ev \<noteq> BTN_LEFT" "ev_code ev \<noteq> BTN_RIGHT" "ev_code ev \<noteq> BTN_MIDDLE"
          "ev_code ev \<noteq> KEY_SYSRQ"
    by blast
  then show ?thesis
  proof cases
    case k
    from key_tail_net [OF assms, of ev "key_u (ev_code ev)" "pressedmod_of (ev_code ev)" 0]
    show ?thesis unfolding key_event_regular [OF k] by blast
  next
    case b
    let ?M = "mouse_button net ev s"
    from mouse_button_net [OF assms, of ev] obtain a1 where
      a1: "mouse_button net' ev (s\<lparr>loc_j := a\<rparr>) = (fst ?M, (snd ?M)\<lparr>loc_j := a1\<rparr>)"
        "(1 > a1) = (1 > loc_j (snd ?M))" by blast
    show ?thesis
    proof (cases "fst ?M = Continue")
      case True
      from key_tail_net [OF assms(1) a1(2), of ev 1 0 0] True a1(1)
      show ?thesis unfolding key_event_button [OF b] by auto
    next
      case False
      with a1(1) show ?thesis unfolding key_event_button [OF b]
        by (intro exI [of _ a1]) simp
    qed
  next
    case p
    let ?X = "sysrq_key net pass ev s"
    from sysrq_key_net [OF assms, of pass ev] obtain a1 where
      a1: "sysrq_key net' pass ev (s\<lparr>loc_j := a\<rparr>)
             = (fst ?X, fst (snd ?X), (snd (snd ?X))\<lparr>loc_j := a1\<rparr>)"
        "(1 > a1) = (1 > loc_j (snd (snd ?X)))" by blast
    show ?thesis
    proof (cases "fst ?X = Continue")
      case True
      from key_tail_net [OF assms(1) a1(2), of ev 1 0 "fst (snd ?X)"] True a1(1)
      show ?thesis unfolding key_event_sysrq [OF p] by auto
    next
      case False
      with a1(1) show ?thesis unfolding key_event_sysrq [OF p]
        by (intro exI [of _ a1]) simp
    qed
  qed
qed

lemma handle_event_net:
  assumes "\<forall>n. (1 \<le> net n) = (1 \<le> net' n)"
  shows "fst (handle_event net' pass ev s) = fst (handle_event net pass ev s)"
    and "same_globals (snd (handle_event net pass ev s)) (snd (handle_event net' pass ev s))"
proof -
  let ?s = "s\<lparr>loc_j := sizeof_input_event\<rparr>"
  have "\<exists>a'. handle_event net' pass ev s
               = (fst (handle_event net pass ev s), (snd (handle_event net pass ev s))\<lparr>loc_j := a'\<rparr>)"
  proof (cases "ev_type ev = EV_KEY")
    case True
    have "(1 > loc_j ?s) = (1 > loc_j ?s)" by simp
    from key_event_net [OF assms this, of pass ev] True show ?thesis
      by (simp add: handle_event_def)
  next
    case False
    show ?thesis
    proof (cases "ev_type ev = EV_REL \<and> (ev_code ev = ABS_X \<or> ev_code ev = ABS_Y
                   \<or> ev_code ev = ABS_Z \<or> ev_code ev = REL_WHEEL)")
      case True
      let ?r = "rel_update ev ?s"
      have i: "?r\<lparr>loc_j := loc_j ?r\<rparr> = ?r" by simp
      have "(1 > loc_j ?r) = (1 > loc_j ?r)" by simp
      from mouse_send_net [OF assms this, unfolded i] obtain a' where
        "mouse_send net' ?r = (fst (mouse_send net ?r), (snd (mouse_send net ?r))\<lparr>loc_j := a'\<rparr>)"
        by blast
      with True show ?thesis
        by (intro exI [of _ a']) (simp add: handle_event_def Let_def rel_event_def)
    next
      case r: False
      with False show ?thesis
        by (intro exI [of _ "loc_j (snd (handle_event net pass ev s))"])
          (auto simp add: handle_event_def Let_def rel_event_def)
    qed
  qed
  then obtain a' where e: "handle_event net' pass ev s
      = (fst (handle_event net pass ev s), (snd (handle_event net pass ev s))\<lparr>loc_j := a'\<rparr>)"
    by blast
  show "fst (handle_event net' pass ev s) = fst (handle_event net pass ev s)" by (simp add: e)
  show "same_globals (snd (handle_event net pass ev s)) (snd (handle_event net' pass ev s))"
    by (simp add: e)
qed

lemma feed_net:
  assumes nn: "\<forall>n. (1 \<le> net n) = (1 \<le> net' n)"
  shows "same_globals s t \<Longrightarrow>
   fst (feed net pass evs s) = fst (feed net' pass evs t)
   \<and> same_globals (snd (feed net pass evs s)) (snd (feed net' pass evs t))"
proof (induction evs arbitrary: s t)
  case Nil
  then show ?case by simp
next
  case (Cons ev evs)
  obtain r s1 where e: "handle_event net pass ev s = (r, s1)"
    by (cases "handle_event net pass ev s")
  obtain r' t1 where e': "handle_event net' pass ev t = (r', t1)"
    by (cases "handle_event net' pass ev t")
  note a = handle_event_net [OF nn, of pass ev s]
  note b = handle_event_same [OF Cons.prems, of net' pass ev]
  from a(1) b(1) e e' have q1: "r' = r" by simp
  from a(2) b(2) have "same_globals (snd (handle_event net pass ev s))
      (snd (handle_event net' pass ev t))" by (rule same_globals_trans)
  with e e' have q2: "same_globals s1 t1" by simp
  show ?case
  proof (cases "r = Continue")
    case True
    with Cons.IH [OF q2] e e' q1 show ?thesis by simp
  next
    case False
    with e e' q1 q2 show ?thesis by (cases r) simp_all
  qed
qed

lemma connected_same:
  assumes "same_process p q" and "events_of rounds1 = events_of rounds2"
    and nn: "\<forall>n. (1 \<le> net n) = (1 \<le> net' n)"
  shows "fst (connected net pass rounds1 p) = fst (connected net' pass rounds2 q)"
    and "same_process (snd (connected net pass rounds1 p)) (snd (connected net' pass rounds2 q))"
proof -
  let ?E = "events_of rounds2"
  let ?F = "feed net pass ?E (st p)"
  let ?G = "feed net' pass ?E (st q)"
  from assms(1) have g: "same_globals (st p) (st q)" by (simp add: same_process_def)
  from feed_net [OF nn g, where pass = pass and evs = "?E"]
  have fg: "fst ?F = fst ?G" "same_globals (snd ?F) (snd ?G)" by simp_all
  note c1 = connected_feed [of net pass rounds1 p, unfolded assms(2)]
  note c2 = connected_feed [of net' pass rounds2 q]
  show "fst (connected net pass rounds1 p) = fst (connected net' pass rounds2 q)"
    using c1 c2 fg(1) by simp
  have m: "same_globals (if fst ?F = Return (- 1) then (snd ?F)\<lparr>connectionok := False\<rparr> else snd ?F)
            (if fst ?G = Return (- 1) then (snd ?G)\<lparr>connectionok := False\<rparr> else snd ?G)"
    using fg by (simp add: same_globals_connectionok)
  from c1 have "same_globals (st (snd (connected net pass rounds1 p)))
      (if fst ?F = Return (- 1) then (snd ?F)\<lparr>connectionok := False\<rparr> else snd ?F)" by simp
  then have "same_globals (st (snd (connected net pass rounds1 p)))
      (if fst ?G = Return (- 1) then (snd ?G)\<lparr>connectionok := False\<rparr> else snd ?G)"
    using m by (rule same_globals_trans)
  moreover from c2 have "same_globals
      (if fst ?G = Return (- 1) then (snd ?G)\<lparr>connectionok := False\<rparr> else snd ?G)
      (st (snd (connected net' pass rounds2 q)))" by (simp add: same_globals_sym)
  ultimately have "same_globals (st (snd (connected net pass rounds1 p)))
      (st (snd (connected net' pass rounds2 q)))" by (rule same_globals_trans)
  with assms(1) connected_props [of net p pass rounds1] connected_props [of net' q pass rounds2]
  show "same_process (snd (connected net pass rounds1 p)) (snd (connected net' pass rounds2 q))"
    by (simp add: same_process_def)
qed

lemma start_session_same:
  "same_process p q \<Longrightarrow> same_process (start_session p) (start_session q)"
  by (cases "st p", cases "st q") (simp add: same_process_def start_session_def same_globals_def)

lemma close_session_same:
  "same_process p q \<Longrightarrow> same_process (close_session p) (close_session q)"
  by (cases "st p", cases "st q") (simp add: same_process_def close_session_def same_globals_def)

lemma session_same:
  assumes "same_process p q" and "events_of rounds1 = events_of rounds2"
    and nn: "\<forall>n. (1 \<le> net n) = (1 \<le> net' n)"
  shows "fst (session net pass rounds1 p) = fst (session net' pass rounds2 q)"
    and "same_process (snd (session net pass rounds1 p)) (snd (session net' pass rounds2 q))"
proof -
  note c = connected_same [OF start_session_same [OF assms(1)] assms(2) nn, where pass = pass]
  show "fst (session net pass rounds1 p) = fst (session net' pass rounds2 q)"
    using c(1) by (simp add: session_eq)
  show "same_process (snd (session net pass rounds1 p)) (snd (session net' pass rounds2 q))"
    using c by (simp add: session_eq close_session_same)
qed

lemma keyb_send_unconnected: "\<not> connectionok s \<Longrightarrow> keyb_send net s = (Continue, s)"
  by (simp add: keyb_send_def)

lemma mouse_send_unconnected: "\<not> connectionok s \<Longrightarrow> mouse_send net s = (Continue, s)"
  by (simp add: mouse_send_def)

lemma pass_loop_unconnected:
  "\<not> connectionok s \<Longrightarrow> fst (pass_loop net ps md s) = Continue"
  by (cases ps) (simp_all add: Let_def)

lemma sysrq_unconnected:
  assumes "\<not> connectionok s"
  shows "fst (sysrq_key net pass ev s) \<noteq> Return (- 1)"
proof -
  consider (o) "ev_value ev \<noteq> 0"
    | (t) "ev_value ev = 0" "modifierkeys s AND 0x1 = 0x1"
    | (p) "ev_value ev = 0" "modifierkeys s AND 0x1 \<noteq> 0x1" "modifierkeys s AND 0x10 = 0x10"
    | (g) "ev_value ev = 0" "modifierkeys s AND 0x1 \<noteq> 0x1" "modifierkeys s AND 0x10 \<noteq> 0x10"
    by blast
  then show ?thesis
  proof cases
    case o
    then show ?thesis by (simp add: sysrq_other)
  next
    case t
    then show ?thesis by (simp add: sysrq_terminate)
  next
    case p
    then show ?thesis by (simp add: sysrq_pass_result [OF p] pass_loop_unconnected [OF assms])
  next
    case g
    then show ?thesis by (simp add: sysrq_toggle)
  qed
qed

lemma key_event_unconnected:
  assumes "\<not> connectionok s"
  shows "fst (key_event net pass ev s) \<noteq> Return (- 1)"
proof -
  consider (b) "ev_code ev = BTN_LEFT \<or> ev_code ev = BTN_RIGHT \<or> ev_code ev = BTN_MIDDLE"
    | (p) "ev_code ev = KEY_SYSRQ"
    | (k) "ev_code ev \<noteq> BTN_LEFT" "ev_code ev \<noteq> BTN_RIGHT" "ev_code ev \<noteq> BTN_MIDDLE"
          "ev_code ev \<noteq> KEY_SYSRQ"
    by blast
  then show ?thesis
  proof cases
    case k
    show ?thesis using assms
      by (simp add: key_event_regular [OF k] key_tail_def keyb_send_unconnected)
  next
    case b
    show ?thesis using assms
      by (simp add: key_event_button [OF b] key_tail_def mouse_button_def
          keyb_send_unconnected mouse_send_unconnected)
  next
    case p
    show ?thesis using assms sysrq_unconnected [OF assms, of net pass ev]
      by (simp add: key_event_sysrq [OF p] key_tail_def keyb_send_unconnected sysrq_frame)
  qed
qed

lemma handle_event_unconnected:
  assumes "\<not> connectionok s"
  shows "fst (handle_event net pass ev s) \<noteq> Return (- 1)"
  using assms key_event_unconnected [of "s\<lparr>loc_j := sizeof_input_event\<rparr>" net pass ev]
  by (simp add: handle_event_def Let_def rel_event_def mouse_send_unconnected)

lemma feed_unconnected:
  "\<not> connectionok s \<Longrightarrow>
   fst (feed net pass evs s) \<noteq> Return (- 1) \<and> \<not> connectionok (snd (feed net pass evs s))"
proof (induction evs arbitrary: s)
  case Nil
  then show ?case by simp
next
  case (Cons ev evs)
  obtain r s1 where e: "handle_event net pass ev s = (r, s1)"
    by (cases "handle_event net pass ev s")
  from handle_event_unconnected [OF Cons.prems, of net pass ev] e
  have r: "r \<noteq> Return (- 1)" by simp
  from handle_event_frame [of net pass ev s] e Cons.prems
  have c: "\<not> connectionok s1" by simp
  show ?case
  proof (cases "r = Continue")
    case True
    with Cons.IH [OF c] e show ?thesis by simp
  next
    case False
    with e r c show ?thesis by (cases r) simp_all
  qed
qed

lemma drain_feed:
  "\<not> connectionok (st p) \<Longrightarrow>
   fst (drain net pass rounds p) =
     (case fst (feed net pass (events_of rounds) (st p)) of
        Continue \<Rightarrow> Next | Return j \<Rightarrow> Next | Exit n \<Rightarrow> Stopped n | Fault \<Rightarrow> Crashed)
   \<and> same_globals (st (snd (drain net pass rounds p)))
        (snd (feed net pass (events_of rounds) (st p)))
   \<and> ctl_chan_open (snd (drain net pass rounds p)) = ctl_chan_open p
   \<and> int_chan_open (snd (drain net pass rounds p)) = int_chan_open p
   \<and> listening (snd (drain net pass rounds p)) = listening p
   \<and> sdp_registered (snd (drain net pass rounds p)) = sdp_registered p
   \<and> evdevs_open (snd (drain net pass rounds p)) = evdevs_open p"
proof (induction rounds arbitrary: p)
  case Nil
  show ?case by simp
next
  case (Cons rs rounds)
  let ?F1 = "feed net pass (events rs) (st p)"
  obtain r s where e: "parse_loop net pass rs (st p) = (r, s)"
    by (cases "parse_loop net pass rs (st p)")
  from parse_loop_feed [of net pass rs "st p"] e
  have pf: "r = (if fst ?F1 = Continue then Return 0 else fst ?F1)" "same_globals s (snd ?F1)"
    by simp_all
  from feed_outcome [of net pass "events rs" "st p"]
    feed_unconnected [OF Cons.prems, of net pass "events rs"]
  have o: "fst ?F1 = Continue \<or> fst ?F1 = Exit 0 \<or> fst ?F1 = Fault"
    and u: "\<not> connectionok (snd ?F1)"
    by auto
  from u pf(2) have us: "\<not> connectionok s" by (simp add: same_globals_fields(3))
  from o show ?case
  proof (elim disjE)
    assume c: "fst ?F1 = Continue"
    let ?p = "p\<lparr>st := s\<rparr>"
    let ?G = "feed net pass (events_of rounds) s"
    let ?H = "feed net pass (events_of rounds) (snd ?F1)"
    have cc: "drain net pass (rs # rounds) p = drain net pass rounds ?p"
      using c pf(1) e by (simp add: parse_events_def)
    have fa: "feed net pass (events_of (rs # rounds)) (st p) = ?H"
      using c by (simp add: feed_append)
    from feed_same [OF pf(2), of net pass "events_of rounds"]
    have gh: "fst ?G = fst ?H" "same_globals (snd ?G) (snd ?H)" by simp_all
    from us have "\<not> connectionok (st ?p)" by simp
    from Cons.IH [OF this]
    have ih: "fst (drain net pass rounds ?p) =
                (case fst ?G of Continue \<Rightarrow> Next | Return j \<Rightarrow> Next
                 | Exit n \<Rightarrow> Stopped n | Fault \<Rightarrow> Crashed)"
      "same_globals (st (snd (drain net pass rounds ?p))) (snd ?G)"
      "ctl_chan_open (snd (drain net pass rounds ?p)) = ctl_chan_open p"
      "int_chan_open (snd (drain net pass rounds ?p)) = int_chan_open p"
      "listening (snd (drain net pass rounds ?p)) = listening p"
      "sdp_registered (snd (drain net pass rounds ?p)) = sdp_registered p"
      "evdevs_open (snd (drain net pass rounds ?p)) = evdevs_open p"
      by simp_all
    from ih(2) gh(2) have "same_globals (st (snd (drain net pass rounds ?p))) (snd ?H)"
      by (rule same_globals_trans)
    with ih gh(1) show ?thesis unfolding cc fa by simp
  next
    assume c: "fst ?F1 = Exit 0"
    have fa: "feed net pass (events_of (rs # rounds)) (st p) = ?F1"
      using c by (simp add: feed_append)
    from c pf e show ?thesis unfolding fa by (simp add: parse_events_def)
  next
    assume c: "fst ?F1 = Fault"
    have fa: "feed net pass (events_of (rs # rounds)) (st p) = ?F1"
      using c by (simp add: feed_append)
    from c pf e show ?thesis unfolding fa by (simp add: parse_events_def)
  qed
qed

lemma drain_same:
  assumes "same_process p q" and "\<not> connectionok (st p)"
    and "events_of rounds1 = events_of rounds2"
    and nn: "\<forall>n. (1 \<le> net n) = (1 \<le> net' n)"
  shows "fst (drain net pass rounds1 p) = fst (drain net' pass rounds2 q)"
    and "same_process (snd (drain net pass rounds1 p)) (snd (drain net' pass rounds2 q))"
    and "\<not> connectionok (st (snd (drain net pass rounds1 p)))"
proof -
  let ?E = "events_of rounds2"
  let ?F = "feed net pass ?E (st p)"
  let ?G = "feed net' pass ?E (st q)"
  from assms(1) have g: "same_globals (st p) (st q)" by (simp add: same_process_def)
  with assms(2) have uq: "\<not> connectionok (st q)" by (simp add: same_globals_fields(3))
  from feed_net [OF nn g, where pass = pass and evs = "?E"]
  have fg: "fst ?F = fst ?G" "same_globals (snd ?F) (snd ?G)" by simp_all
  note c1 = drain_feed [OF assms(2), of net pass rounds1, unfolded assms(3)]
  note c2 = drain_feed [OF uq, of net' pass rounds2]
  show "fst (drain net pass rounds1 p) = fst (drain net' pass rounds2 q)"
    using c1 c2 fg(1) by simp
  from c1 have a: "same_globals (st (snd (drain net pass rounds1 p))) (snd ?F)" by simp
  from a fg(2) have "same_globals (st (snd (drain net pass rounds1 p))) (snd ?G)"
    by (rule same_globals_trans)
  moreover from c2 have "same_globals (snd ?G) (st (snd (drain net' pass rounds2 q)))"
    by (simp add: same_globals_sym)
  ultimately have "same_globals (st (snd (drain net pass rounds1 p)))
      (st (snd (drain net' pass rounds2 q)))" by (rule same_globals_trans)
  with assms(1) c1 c2
  show "same_process (snd (drain net pass rounds1 p)) (snd (drain net' pass rounds2 q))"
    by (simp add: same_process_def)
  from feed_unconnected [OF assms(2), of net pass ?E] a
  show "\<not> connectionok (st (snd (drain net pass rounds1 p)))"
    by (simp add: same_globals_fields(3))
qed

lemma same_process_st:
  "same_process p q \<Longrightarrow> same_globals s t \<Longrightarrow> same_process (p\<lparr>st := s\<rparr>) (q\<lparr>st := t\<rparr>)"
  by (simp add: same_process_def)

lemma same_process_fields:
  assumes "same_process p q"
  shows "same_globals (st p) (st q)" "prepareshutdown (st p) = prepareshutdown (st q)"
    "sent (st p) = sent (st q)" "connectionok (st p) = connectionok (st q)"
  using assms by (simp_all add: same_process_def same_globals_fields)

lemma session_Next:
  "fst (session net pass rounds p) = Next \<Longrightarrow>
   \<not> connectionok (st (snd (session net pass rounds p)))"
  by (simp add: session_eq close_session_def split: if_splits)

lemma main_iteration_same:
  assumes "same_process p q" and "\<not> connectionok (st p)" and "same_events it1 it2"
    and nn: "\<forall>n. (1 \<le> net n) = (1 \<le> net' n)"
  shows "fst (main_iteration net pass it1 p) = fst (main_iteration net' pass it2 q)
     \<and> same_process (snd (main_iteration net pass it1 p)) (snd (main_iteration net' pass it2 q))
     \<and> (fst (main_iteration net pass it1 p) = Next \<longrightarrow>
          \<not> connectionok (st (snd (main_iteration net pass it1 p))))"
proof -
  from assms(3) have ev: "it_accept it2 = it_accept it1"
    "events_of (it_drain1 it1) = events_of (it_drain1 it2)"
    "events_of (it_drain2 it1) = events_of (it_drain2 it2)"
    "events_of (it_session it1) = events_of (it_session it2)"
    by (simp_all add: same_events_def)
  obtain r1 p1 where d1: "drain net pass (it_drain1 it1) p = (r1, p1)"
    by (cases "drain net pass (it_drain1 it1) p")
  obtain r1' q1 where d1': "drain net' pass (it_drain1 it2) q = (r1', q1)"
    by (cases "drain net' pass (it_drain1 it2) q")
  from drain_same [OF assms(1,2) ev(2) nn, where pass = pass] d1 d1'
  have s1: "r1' = r1" "same_process p1 q1" "\<not> connectionok (st p1)" by simp_all
  note f1 = same_process_fields [OF s1(2)]
  show ?thesis
  proof (cases "r1 = Next \<and> prepareshutdown (st p1) = 0")
    case False
    have "main_iteration net pass it1 p = (r1, p1)"
      using False by (cases r1) (auto simp add: main_iteration_def d1)
    moreover have "main_iteration net' pass it2 q = (r1, q1)"
      using False f1(2) s1(1) by (cases r1) (auto simp add: main_iteration_def d1')
    ultimately show ?thesis using s1 by simp
  next
    case True
    let ?p2 = "p1\<lparr>st := (st p1)\<lparr>connectionok := False\<rparr>\<rparr>"
    let ?q2 = "q1\<lparr>st := (st q1)\<lparr>connectionok := False\<rparr>\<rparr>"
    have s2: "same_process ?p2 ?q2"
      by (rule same_process_st [OF s1(2)]) (rule same_globals_connectionok [OF f1(1)])
    show ?thesis
    proof (cases "it_accept it1 = Accepted")
      case False
      have sg: "same_process (on_signal h ?p2) (on_signal h ?q2)" for h
        using s2 by (simp add: on_signal_def same_process_def same_globals_prepareshutdown)
      have sc: "same_process (?p2\<lparr>ctl_chan_open := True\<rparr>) (?q2\<lparr>ctl_chan_open := True\<rparr>)"
        using s2 by (simp add: same_process_def)
      from False True f1(2) s1(1) s2 sg sc ev(1) show ?thesis
        by (cases "it_accept it1")
          (simp_all add: main_iteration_def d1 d1' Let_def on_signal_def)
    next
      case acc: True
      let ?p2' = "?p2\<lparr>ctl_chan_open := True, int_chan_open := True\<rparr>"
      let ?q2' = "?q2\<lparr>ctl_chan_open := True, int_chan_open := True\<rparr>"
      have s2': "same_process ?p2' ?q2'" using s2 by (simp add: same_process_def)
      have u2: "\<not> connectionok (st ?p2')" by simp
      obtain r3 p3 where d2: "drain net pass (it_drain2 it1) ?p2' = (r3, p3)"
        by (cases "drain net pass (it_drain2 it1) ?p2'")
      obtain r3' q3 where d2': "drain net' pass (it_drain2 it2) ?q2' = (r3', q3)"
        by (cases "drain net' pass (it_drain2 it2) ?q2'")
      from drain_same [OF s2' u2 ev(3) nn, where pass = pass] d2 d2'
      have s3: "r3' = r3" "same_process p3 q3" "\<not> connectionok (st p3)" by simp_all
      note f3 = same_process_fields [OF s3(2)]
      have m1: "main_iteration net pass it1 p =
                 (case (r3, p3) of
                    (Next, p3) \<Rightarrow> if prepareshutdown (st p3) \<noteq> 0 then (Next, p3)
                                 else session net pass (it_session it1) p3
                  | r \<Rightarrow> r)"
        using True acc d2 by (simp add: main_iteration_def d1 Let_def)
      have m2: "main_iteration net' pass it2 q =
                 (case (r3, q3) of
                    (Next, q3) \<Rightarrow> if prepareshutdown (st q3) \<noteq> 0 then (Next, q3)
                                 else session net' pass (it_session it2) q3
                  | r \<Rightarrow> r)"
        using True acc d2' s1(1) s3(1) f1(2) ev(1) by (simp add: main_iteration_def d1' Let_def)
      show ?thesis
      proof (cases "r3 = Next \<and> prepareshutdown (st p3) = 0")
        case True
        then have e1: "main_iteration net pass it1 p = session net pass (it_session it1) p3"
          by (simp add: m1)
        from True f3(2) have e2: "main_iteration net' pass it2 q = session net' pass (it_session it2) q3"
          by (simp add: m2)
        from session_same [OF s3(2) ev(4) nn, where pass = pass]
          session_Next [of net pass "it_session it1" p3]
        show ?thesis unfolding e1 e2 by simp
      next
        case False
        have "main_iteration net pass it1 p = (r3, p3)"
          using False by (cases r3) (auto simp add: m1)
        moreover have "main_iteration net' pass it2 q = (r3, q3)"
          using False f3(2) by (cases r3) (auto simp add: m2)
        ultimately show ?thesis using s3 by simp
      qed
    qed
  qed
qed

lemma teardown_same: "same_process p q \<Longrightarrow> same_process (teardown p) (teardown q)"
  by (simp add: same_process_def teardown_def)

lemma main_loop_same:
  assumes nn: "\<forall>n. (1 \<le> net n) = (1 \<le> net' n)"
  shows "same_process p q \<Longrightarrow> \<not> connectionok (st p) \<Longrightarrow> list_all2 same_events its1 its2 \<Longrightarrow>
   fst (main_loop net pass its1 p) = fst (main_loop net' pass its2 q)
   \<and> same_process (snd (main_loop net pass its1 p)) (snd (main_loop net' pass its2 q))"
proof (induction its1 arbitrary: its2 p q)
  case Nil
  then have "its2 = []" by simp
  with Nil.prems(1) same_process_fields(2) [OF Nil.prems(1)] show ?case
    by (simp add: teardown_same)
next
  case (Cons it1 its1)
  from Cons.prems(3) obtain it2 its2' where i: "its2 = it2 # its2'" "same_events it1 it2"
    "list_all2 same_events its1 its2'" by (cases its2) auto
  note f = same_process_fields [OF Cons.prems(1)]
  show ?case
  proof (cases "prepareshutdown (st p) \<noteq> 0")
    case True
    with f(2) Cons.prems(1) i(1) show ?thesis by (simp add: teardown_same)
  next
    case False
    obtain r p1 where e: "main_iteration net pass it1 p = (r, p1)"
      by (cases "main_iteration net pass it1 p")
    obtain r' q1 where e': "main_iteration net' pass it2 q = (r', q1)"
      by (cases "main_iteration net' pass it2 q")
    from main_iteration_same [OF Cons.prems(1,2) i(2) nn, where pass = pass] e e'
    have s: "r' = r" "same_process p1 q1" "r = Next \<longrightarrow> \<not> connectionok (st p1)" by simp_all
    show ?thesis
    proof (cases "r = Next")
      case True
      with s(3) have u: "\<not> connectionok (st p1)" by simp
      from Cons.IH [OF s(2) u i(3)] True False f(2) e e' s(1) i(1) show ?thesis by simp
    next
      case nn: False
      with False f(2) e e' s i(1) show ?thesis by (cases r) simp_all
    qed
  qed
qed

lemma same_process_sym: "same_process p q \<Longrightarrow> same_process q p"
  by (simp add: same_process_def same_globals_sym)

lemma same_process_trans: "same_process p q \<Longrightarrow> same_process q r \<Longrightarrow> same_process p r"
  by (auto simp add: same_process_def intro: same_globals_trans)


lemma run_two_batches:
  "main_loop (\<lambda>n. 11) [(2, 0x04)]
     [\<lparr>it_drain1 = [[Read_event \<lparr>ev_type = EV_KEY, ev_code = KEY_SYSRQ, ev_value = 0\<rparr>]],
       it_accept = Accepted, it_drain2 = [],
       it_session = [[Read_event \<lparr>ev_type = EV_KEY, ev_code = KEY_A, ev_value = 1\<rparr>,
                      Read_event \<lparr>ev_type = EV_REL, ev_code = ABS_X, ev_value = 5\<rparr>],
                     [Read_short 3,
                      Read_event \<lparr>ev_type = EV_KEY, ev_code = KEY_A, ev_value = 0\<rparr>]]\<rparr>]
     (init_process False 0)
   = (Waiting,
      \<lparr>st = \<lparr>prepareshutdown = 0, mousebuttons = 0, modifierkeys = 0,
             pressedkey = [0, 0, 0, 0, 0, 0, 0, 0], connectionok = True, on = True,
             stop_writing = False, id_x11 = 0, result_alloc = False, loc_j = 11,
             hidrep = [0xA1, 2, 0, 0, 0, 0, 0, 0, 0, 0, 0],
             sent = [[0xA1, 2, 0, 0x18, 0, 0, 0, 0, 0, 0, 0], [0xA1, 1, 0, 5, 0, 0],
                     [0xA1, 2, 0, 0, 0, 0, 0, 0, 0, 0, 0]],
             xinput = []\<rparr>,
        ctl_chan_open = True, int_chan_open = True, listening = True,
        sdp_registered = True, evdevs_open = True\<rparr>)"
  by code_simp



section \<open>Events that send no mouse report\<close>


lemma pass_loop_keyb:
  "\<exists>new. sent (snd (snd (pass_loop net ps md s))) = sent s @ new
         \<and> list_all (\<lambda>p. \<not> is_mouse_report p) new"
proof (induction ps arbitrary: md s)
  case Nil
  show ?case by simp
next
  case (Cons p ps)
  let ?s2 = "s\<lparr>pressedkey := (pressedkey s)[0 := snd p],
               hidrep := keyb_report (fst p) ((pressedkey s)[0 := snd p])\<rparr>"
  obtain r s3 where e: "keyb_send net ?s2 = (r, s3)" by (cases "keyb_send net ?s2")
  then have "s3 = snd (keyb_send net ?s2)" by simp
  then have s3: "sent s3 = sent s @ (if connectionok s \<and> on s
                   then [keyb_report (fst p) ((pressedkey s)[0 := snd p])] else [])"
    by (simp add: keyb_send_sent)
  show ?case
  proof (cases "connectionok s")
    case False
    then show ?thesis by (simp add: Let_def)
  next
    case True
    show ?thesis
    proof (cases "r = Continue")
      case c: True
      from Cons.IH [of "fst p" s3] obtain new where
        n: "sent (snd (snd (pass_loop net ps (fst p) s3))) = sent s3 @ new"
          "list_all (\<lambda>p. \<not> is_mouse_report p) new" by blast
      from True c e have "pass_loop net (p # ps) md s = pass_loop net ps (fst p) s3"
        by (simp add: Let_def)
      with n s3 show ?thesis by simp
    next
      case False
      with True e have "snd (snd (pass_loop net (p # ps) md s)) = s3"
        by (cases r) (simp_all add: Let_def)
      with s3 show ?thesis by simp
    qed
  qed
qed

lemma sysrq_key_keyb:
  "\<exists>new. sent (snd (snd (sysrq_key net pass ev s))) = sent s @ new
         \<and> list_all (\<lambda>p. \<not> is_mouse_report p) new"
proof -
  consider (o) "ev_value ev \<noteq> 0"
    | (t) "ev_value ev = 0" "modifierkeys s AND 0x1 = 0x1"
    | (p) "ev_value ev = 0" "modifierkeys s AND 0x1 \<noteq> 0x1" "modifierkeys s AND 0x10 = 0x10"
    | (g) "ev_value ev = 0" "modifierkeys s AND 0x1 \<noteq> 0x1" "modifierkeys s AND 0x10 \<noteq> 0x10"
    by blast
  then show ?thesis
  proof cases
    case o
    then show ?thesis by (simp add: sysrq_other)
  next
    case t
    then show ?thesis by (simp add: sysrq_terminate)
  next
    case g
    then show ?thesis by (simp add: sysrq_toggle)
  next
    case p
    from pass_loop_keyb [of net pass 0 s] show ?thesis
      by (auto simp add: sysrq_pass_result [OF p])
  qed
qed

lemma key_event_other:
  assumes "\<not> (ev_code ev = BTN_LEFT \<or> ev_code ev = BTN_RIGHT \<or> ev_code ev = BTN_MIDDLE)"
  shows "mousebuttons (snd (key_event net pass ev s)) = mousebuttons s"
    and "\<exists>new. sent (snd (key_event net pass ev s)) = sent s @ new
              \<and> list_all (\<lambda>p. \<not> is_mouse_report p) new"
proof -
  consider (p) "ev_code ev = KEY_SYSRQ"
    | (k) "ev_code ev \<noteq> BTN_LEFT" "ev_code ev \<noteq> BTN_RIGHT" "ev_code ev \<noteq> BTN_MIDDLE"
          "ev_code ev \<noteq> KEY_SYSRQ"
    using assms by blast
  then have "mousebuttons (snd (key_event net pass ev s)) = mousebuttons s
     \<and> (\<exists>new. sent (snd (key_event net pass ev s)) = sent s @ new
              \<and> list_all (\<lambda>p. \<not> is_mouse_report p) new)"
  proof cases
    case k
    show ?thesis
      by (simp add: key_event_regular [OF k] key_tail_sent key_update_hidrep)
  next
    case p
    from sysrq_key_keyb [of net pass ev s] obtain new where
      n: "sent (snd (snd (sysrq_key net pass ev s))) = sent s @ new"
         "list_all (\<lambda>p. \<not> is_mouse_report p) new" by blast
    then show ?thesis
      by (simp add: key_event_sysrq [OF p] key_tail_sent key_update_hidrep sysrq_frame)
  qed
  then show "mousebuttons (snd (key_event net pass ev s)) = mousebuttons s"
    and "\<exists>new. sent (snd (key_event net pass ev s)) = sent s @ new
              \<and> list_all (\<lambda>p. \<not> is_mouse_report p) new"
    by simp_all
qed

lemma other_key_no_mouse_report:
  assumes "ev_type ev = EV_KEY"
    and "\<not> (ev_code ev = BTN_LEFT \<or> ev_code ev = BTN_RIGHT \<or> ev_code ev = BTN_MIDDLE)"
  shows "mousebuttons (snd (handle_event net pass ev s)) = mousebuttons s"
    and "filter is_mouse_report (drop (length (sent s)) (sent (snd (handle_event net pass ev s)))) = []"
proof -
  let ?s = "s\<lparr>loc_j := sizeof_input_event\<rparr>"
  have h: "handle_event net pass ev s = key_event net pass ev ?s"
    using assms(1) by (simp add: handle_event_def)
  show "mousebuttons (snd (handle_event net pass ev s)) = mousebuttons s"
    by (simp add: h key_event_other(1) [OF assms(2)])
  from key_event_other(2) [OF assms(2), of net pass ?s] obtain new where
    "sent (snd (key_event net pass ev ?s)) = sent s @ new"
    "list_all (\<lambda>p. \<not> is_mouse_report p) new" by auto
  then show "filter is_mouse_report (drop (length (sent s)) (sent (snd (handle_event net pass ev s)))) = []"
    by (simp add: h filter_empty_conv list_all_iff)
qed

section \<open>Mouse reports\<close>










section \<open>A session without the terminate key\<close>


lemma and_one_odd: "(x AND 1 = 1) = odd x" for x :: "32 word"
  by (simp add: and_one_eq odd_iff_mod_2_eq_one)

lemma odd_modifier_update:
  "even ((m AND (0xffff - pm)) OR pm) = (even pm \<and> even m)"
  "even (m AND (0xffff - pm)) = (even m \<or> odd pm)"
  for m pm :: "32 word"
  by (auto simp add: even_or_iff even_and_iff)

lemma odd_pressedmod: "even (pressedmod_of c) = (c \<noteq> KEY_LEFTCTRL)"
  by (simp add: pressedmod_of_def)

lemma key_tail_modifierkeys:
  "modifierkeys (snd (key_tail net ev u pm md s)) =
     (if 1 \<le> sint (ev_value ev) then (modifierkeys s AND (0xffff - pm)) OR pm
      else modifierkeys s AND (0xffff - pm))"
  by (simp add: key_tail_def)

lemma key_event_lctrl:
  "(modifierkeys (snd (key_event net pass ev s)) AND 1 = 1) =
     (if ev_code ev = KEY_LEFTCTRL then 1 \<le> sint (ev_value ev) else modifierkeys s AND 1 = 1)"
proof -
  consider (b) "ev_code ev = BTN_LEFT \<or> ev_code ev = BTN_RIGHT \<or> ev_code ev = BTN_MIDDLE"
    | (p) "ev_code ev = KEY_SYSRQ"
    | (k) "ev_code ev \<noteq> BTN_LEFT" "ev_code ev \<noteq> BTN_RIGHT" "ev_code ev \<noteq> BTN_MIDDLE"
          "ev_code ev \<noteq> KEY_SYSRQ"
    by blast
  then show ?thesis
  proof cases
    case k
    show ?thesis
      by (simp add: key_event_regular [OF k] key_tail_modifierkeys and_one_odd
          odd_modifier_update odd_pressedmod)
  next
    case b
    then have "ev_code ev \<noteq> KEY_LEFTCTRL" by auto
    then show ?thesis
      by (simp add: key_event_button [OF b] key_tail_modifierkeys and_one_odd
          odd_modifier_update mouse_button_def even_and_iff)
  next
    case p
    then have "ev_code ev \<noteq> KEY_LEFTCTRL" by auto
    then show ?thesis
      by (simp add: key_event_sysrq [OF p] key_tail_modifierkeys and_one_odd
          odd_modifier_update sysrq_frame even_and_iff)
  qed
qed

lemma handle_event_lctrl:
  "(modifierkeys (snd (handle_event net pass ev s)) AND 1 = 1) =
     lctrl_after (modifierkeys s AND 1 = 1) ev"
  using key_event_lctrl [of net pass ev "s\<lparr>loc_j := sizeof_input_event\<rparr>"]
  by (simp add: handle_event_def Let_def rel_event_def lctrl_after_def)

lemma sysrq_no_exit:
  assumes "\<not> (ev_value ev = 0 \<and> modifierkeys s AND 1 = 1)"
    and "stop_writing s \<and> id_x11 s \<noteq> 0 \<longrightarrow> result_alloc s"
  shows "fst (sysrq_key net pass ev s) = Continue \<or> fst (sysrq_key net pass ev s) = Return (- 1)"
proof -
  consider (o) "ev_value ev \<noteq> 0"
    | (p) "ev_value ev = 0" "modifierkeys s AND 0x1 \<noteq> 0x1" "modifierkeys s AND 0x10 = 0x10"
    | (g) "ev_value ev = 0" "modifierkeys s AND 0x1 \<noteq> 0x1" "modifierkeys s AND 0x10 \<noteq> 0x10"
    using assms(1) by blast
  then show ?thesis
  proof cases
    case o
    then show ?thesis by (simp add: sysrq_other)
  next
    case p
    from pass_loop_outcome [of net pass 0 s] show ?thesis
      by (simp add: sysrq_pass_result [OF p])
  next
    case g
    with assms(2) show ?thesis by (auto simp add: sysrq_toggle)
  qed
qed

lemma key_event_no_exit:
  assumes "\<not> (ev_code ev = KEY_SYSRQ \<and> ev_value ev = 0 \<and> modifierkeys s AND 1 = 1)"
    and "stop_writing s \<and> id_x11 s \<noteq> 0 \<longrightarrow> result_alloc s"
  shows "fst (key_event net pass ev s) = Continue \<or> fst (key_event net pass ev s) = Return (- 1)"
proof -
  consider (b) "ev_code ev = BTN_LEFT \<or> ev_code ev = BTN_RIGHT \<or> ev_code ev = BTN_MIDDLE"
    | (p) "ev_code ev = KEY_SYSRQ"
    | (k) "ev_code ev \<noteq> BTN_LEFT" "ev_code ev \<noteq> BTN_RIGHT" "ev_code ev \<noteq> BTN_MIDDLE"
          "ev_code ev \<noteq> KEY_SYSRQ"
    by blast
  then show ?thesis
  proof cases
    case k
    show ?thesis by (simp add: key_event_regular [OF k] key_tail_outcome)
  next
    case b
    from mouse_button_outcome [of net ev s]
      key_tail_outcome [of net ev 1 0 0 "snd (mouse_button net ev s)"]
    show ?thesis by (auto simp add: key_event_button [OF b])
  next
    case p
    let ?X = "sysrq_key net pass ev s"
    have "fst ?X = Continue \<or> fst ?X = Return (- 1)"
      by (rule sysrq_no_exit) (use assms p in simp_all)
    with key_tail_outcome [of net ev 1 0 "fst (snd ?X)" "snd (snd ?X)"]
    show ?thesis by (auto simp add: key_event_sysrq [OF p])
  qed
qed

lemma handle_event_no_exit:
  assumes "\<not> (print_release ev \<and> modifierkeys s AND 1 = 1)"
    and "stop_writing s \<and> id_x11 s \<noteq> 0 \<longrightarrow> result_alloc s"
  shows "fst (handle_event net pass ev s) = Continue
         \<or> fst (handle_event net pass ev s) = Return (- 1)"
proof (cases "ev_type ev = EV_KEY")
  case True
  let ?s = "s\<lparr>loc_j := sizeof_input_event\<rparr>"
  have "fst (key_event net pass ev ?s) = Continue \<or> fst (key_event net pass ev ?s) = Return (- 1)"
    by (rule key_event_no_exit) (use assms True in \<open>auto simp add: print_release_def\<close>)
  with True show ?thesis by (simp add: handle_event_def)
next
  case False
  then show ?thesis
    by (simp add: handle_event_def Let_def rel_event_def mouse_send_def)
qed

lemma feed_no_exit:
  "no_terminate (modifierkeys s AND 1 = 1) evs \<Longrightarrow>
   (stop_writing s \<and> id_x11 s \<noteq> 0 \<longrightarrow> result_alloc s) \<Longrightarrow>
   fst (feed net pass evs s) = Continue \<or> fst (feed net pass evs s) = Return (- 1)"
proof (induction evs arbitrary: s)
  case Nil
  show ?case by simp
next
  case (Cons ev evs)
  obtain r s1 where e: "handle_event net pass ev s = (r, s1)"
    by (cases "handle_event net pass ev s")
  from Cons.prems(1) have n: "\<not> (print_release ev \<and> modifierkeys s AND 1 = 1)"
    "no_terminate (lctrl_after (modifierkeys s AND 1 = 1) ev) evs" by simp_all
  from handle_event_no_exit [OF n(1) Cons.prems(2), of net pass] e
  have r: "r = Continue \<or> r = Return (- 1)" by simp
  from handle_event_lctrl [of net pass ev s] e
  have l: "(modifierkeys s1 AND 1 = 1) = lctrl_after (modifierkeys s AND 1 = 1) ev" by simp
  from handle_event_frame [of net pass ev s] e Cons.prems(2)
  have c: "stop_writing s1 \<and> id_x11 s1 \<noteq> 0 \<longrightarrow> result_alloc s1" by simp
  from r show ?case
  proof
    assume "r = Continue"
    with Cons.IH [OF _ c] n(2) l e show ?thesis by simp
  next
    assume "r = Return (- 1)"
    with e show ?thesis by simp
  qed
qed

lemma session_no_exit:
  assumes "no_terminate False (events_of rounds)"
    and "stop_writing (st p) \<and> id_x11 (st p) \<noteq> 0 \<longrightarrow> result_alloc (st p)"
  shows "fst (session net pass rounds p) = Waiting \<or> fst (session net pass rounds p) = Next"
proof -
  let ?q = "start_session p"
  have m: "(modifierkeys (st ?q) AND 1 = 1) = False" by (simp add: start_session_def)
  have c: "stop_writing (st ?q) \<and> id_x11 (st ?q) \<noteq> 0 \<longrightarrow> result_alloc (st ?q)"
    using assms(2) by (simp add: start_session_def)
  have "fst (feed net pass (events_of rounds) (st ?q)) = Continue
        \<or> fst (feed net pass (events_of rounds) (st ?q)) = Return (- 1)"
    by (rule feed_no_exit [OF _ c]) (simp only: m assms(1))
  with connected_feed [of net pass rounds ?q]
  have "fst (connected net pass rounds ?q) = Waiting \<or> fst (connected net pass rounds ?q) = Next"
    by auto
  then show ?thesis by (auto simp add: session_eq)
qed

section \<open>A failed send ends the session\<close>


text \<open>
  C6, as amended. Take a session (from the moment it is connected until the loop of
  \<^verbatim>\<open>main\<close> has closed it) in whose events the terminate key is not used, that is, PRINT is
  never released while the left control key is held, counted from the start of the
  session, where the modifier state is reset; the buffer \<^verbatim>\<open>result\<close> is allocated if
  \<^verbatim>\<open>-x\<close> is in force, as \<^verbatim>\<open>main\<close> leaves it. The sends of such a session are those of mouse
  reports, of ordinary keyboard reports and of the password burst. When one of them has
  failed, that is, returned less than 1: the process has neither exited nor faulted, the
  failed call is the last call of the session, the session loop has been left, and behind
  it \<^verbatim>\<open>connectionok\<close> is 0 and both channels are closed; \<^verbatim>\<open>prepareshutdown\<close>, the listening
  sockets, the SDP record and the input devices are as before, so that the loop of
  \<^verbatim>\<open>main\<close> goes on.
\<close>

theorem send_failure_closes_session:
  assumes "session net pass rounds p = (stt, p')"
    and "\<not> sends_ok net (length (sent (st p))) (length (sent (st p')))"
    and "no_terminate False (events_of rounds)"
    and "stop_writing (st p) \<and> id_x11 (st p) \<noteq> 0 \<longrightarrow> result_alloc (st p)"
  shows "stt = Next \<and> \<not> connectionok (st p') \<and> \<not> int_chan_open p' \<and> \<not> ctl_chan_open p'
    \<and> prepareshutdown (st p') = prepareshutdown (st p)
    \<and> listening p' = listening p \<and> sdp_registered p' = sdp_registered p
    \<and> evdevs_open p' = evdevs_open p
    \<and> sends_ok net (length (sent (st p))) (length (sent (st p')) - 1)"
proof -
  let ?q = "start_session p"
  let ?c = "connected net pass rounds ?q"
  note cp = connected_props [of net ?q pass rounds]
  have q: "sent (st ?q) = sent (st p)" "prepareshutdown (st ?q) = prepareshutdown (st p)"
    "listening ?q = listening p" "sdp_registered ?q = sdp_registered p"
    "evdevs_open ?q = evdevs_open p"
    by (simp_all add: start_session_def)
  from session_no_exit [OF assms(3,4), of net pass] assms(1)
  have w: "stt = Waiting \<or> stt = Next" by simp
  have n: "fst ?c = Next"
  proof (rule ccontr)
    assume a: "fst ?c \<noteq> Next"
    with assms(1) have e: "?c = (stt, p')" by (simp add: session_eq)
    with a w have "stt = Waiting" by simp
    with cp e have "orderly net (st ?q) Continue (st p')" by simp
    then have "sends_ok net (length (sent (st p))) (length (sent (st p')))"
      by (simp add: orderly_def q)
    with assms(2) show False by simp
  qed
  with assms(1) have s: "stt = Next" and p': "p' = close_session (snd ?c)"
    by (simp_all add: session_eq)
  from cp n have "orderly net (st ?q) (Return (- 1)) (st (snd ?c))" by simp
  then have "sends_ok net (length (sent (st p))) (length (sent (st p')) - 1)"
    by (simp add: orderly_def q p' close_session_def)
  moreover from cp have "prepareshutdown (st p') = prepareshutdown (st p)"
    "listening p' = listening p" "sdp_registered p' = sdp_registered p" "evdevs_open p' = evdevs_open p"
    by (simp_all add: p' close_session_def q)
  ultimately show ?thesis using s by (simp add: p' close_session_def)
qed

text \<open>
  The claim as stated fails. The program is started with \<^verbatim>\<open>-x\<close>, a session is accepted,
  the left control key is pressed and PRINT is released; the one \<^verbatim>\<open>send\<close>, of the report
  with no key, returns 0. The process has ended with status 0, the session has not
  been closed.
\<close>

theorem failed_final_report_counterexample:
  "main_loop (\<lambda>n. 0) []
     [\<lparr>it_drain1 = [], it_accept = Accepted, it_drain2 = [],
       it_session = [[Read_event \<lparr>ev_type = EV_KEY, ev_code = KEY_LEFTCTRL, ev_value = 1\<rparr>],
                     [Read_event \<lparr>ev_type = EV_KEY, ev_code = KEY_SYSRQ, ev_value = 0\<rparr>]]\<rparr>]
     (init_process True 5)
   = (Stopped 0,
      \<lparr>st = \<lparr>prepareshutdown = 0, mousebuttons = 0, modifierkeys = 0x8001,
              pressedkey = [0, 0, 0, 0, 0, 0, 0, 0], connectionok = True, on = False,
              stop_writing = True, id_x11 = 5, result_alloc = True, loc_j = 0,
              hidrep = [0xA1, 2, 0, 0, 0, 0, 0, 0, 0, 0, 0],
              sent = [[0xA1, 2, 0, 0, 0, 0, 0, 0, 0, 0, 0]], xinput = [(5, True)]\<rparr>,
        ctl_chan_open = True, int_chan_open = True, listening = True,
        sdp_registered = True, evdevs_open = True\<rparr>)"
  by code_simp

theorem send_failure_closes_session_witness:
  "no_terminate False (events_of
          [[Read_event \<lparr>ev_type = EV_KEY, ev_code = KEY_SYSRQ, ev_value = 0\<rparr>],
           [Read_event \<lparr>ev_type = EV_KEY, ev_code = KEY_A, ev_value = 1\<rparr>],
           [Read_event \<lparr>ev_type = EV_KEY, ev_code = KEY_A, ev_value = 0\<rparr>]])
   \<and> \<not> sends_ok (\<lambda>n. if n = 1 then 0 else 11)
       (length (sent (st ((init_process False 0)\<lparr>ctl_chan_open := True, int_chan_open := True\<rparr>))))
       (length (sent (st (snd (session (\<lambda>n. if n = 1 then 0 else 11) []
          [[Read_event \<lparr>ev_type = EV_KEY, ev_code = KEY_SYSRQ, ev_value = 0\<rparr>],
           [Read_event \<lparr>ev_type = EV_KEY, ev_code = KEY_A, ev_value = 1\<rparr>],
           [Read_event \<lparr>ev_type = EV_KEY, ev_code = KEY_A, ev_value = 0\<rparr>]]
          ((init_process False 0)\<lparr>ctl_chan_open := True, int_chan_open := True\<rparr>))))))
   \<and> session (\<lambda>n. if n = 1 then 0 else 11) []
          [[Read_event \<lparr>ev_type = EV_KEY, ev_code = KEY_SYSRQ, ev_value = 0\<rparr>],
           [Read_event \<lparr>ev_type = EV_KEY, ev_code = KEY_A, ev_value = 1\<rparr>],
           [Read_event \<lparr>ev_type = EV_KEY, ev_code = KEY_A, ev_value = 0\<rparr>]]
          ((init_process False 0)\<lparr>ctl_chan_open := True, int_chan_open := True\<rparr>)
      = (Next,
         \<lparr>st = \<lparr>prepareshutdown = 0, mousebuttons = 0, modifierkeys = 0,
              pressedkey = [0x18, 0, 0, 0, 0, 0, 0, 0], connectionok = False, on = True,
              stop_writing = False, id_x11 = 0, result_alloc = False, loc_j = 0,
              hidrep = [0xA1, 2, 0, 0x18, 0, 0, 0, 0, 0, 0, 0],
              sent = [[0xA1, 2, 0, 0, 0, 0, 0, 0, 0, 0, 0],
                      [0xA1, 2, 0, 0x18, 0, 0, 0, 0, 0, 0, 0]], xinput = []\<rparr>,
           ctl_chan_open = False, int_chan_open = False, listening = True,
           sdp_registered = True, evdevs_open = True\<rparr>)
   \<and> \<not> connectionok (st (snd (session (\<lambda>n. if n = 1 then 0 else 11) []
          [[Read_event \<lparr>ev_type = EV_KEY, ev_code = KEY_SYSRQ, ev_value = 0\<rparr>],
           [Read_event \<lparr>ev_type = EV_KEY, ev_code = KEY_A, ev_value = 1\<rparr>],
           [Read_event \<lparr>ev_type = EV_KEY, ev_code = KEY_A, ev_value = 0\<rparr>]]
          ((init_process False 0)\<lparr>ctl_chan_open := True, int_chan_open := True\<rparr>))))"
proof -
  let ?net = "\<lambda>n. if n = 1 then 0 else (11 :: int)"
  let ?p = "(init_process False 0)\<lparr>ctl_chan_open := True, int_chan_open := True\<rparr>"
  let ?rounds = "[[Read_event \<lparr>ev_type = EV_KEY, ev_code = KEY_SYSRQ, ev_value = 0\<rparr>],
           [Read_event \<lparr>ev_type = EV_KEY, ev_code = KEY_A, ev_value = 1\<rparr>],
           [Read_event \<lparr>ev_type = EV_KEY, ev_code = KEY_A, ev_value = 0\<rparr>]]"
  have r: "session ?net [] ?rounds ?p
      = (Next,
         \<lparr>st = \<lparr>prepareshutdown = 0, mousebuttons = 0, modifierkeys = 0,
              pressedkey = [0x18, 0, 0, 0, 0, 0, 0, 0], connectionok = False, on = True,
              stop_writing = False, id_x11 = 0, result_alloc = False, loc_j = 0,
              hidrep = [0xA1, 2, 0, 0x18, 0, 0, 0, 0, 0, 0, 0],
              sent = [[0xA1, 2, 0, 0, 0, 0, 0, 0, 0, 0, 0],
                      [0xA1, 2, 0, 0x18, 0, 0, 0, 0, 0, 0, 0]], xinput = []\<rparr>,
           ctl_chan_open = False, int_chan_open = False, listening = True,
           sdp_registered = True, evdevs_open = True\<rparr>)"
    by code_simp
  have f: "\<not> sends_ok ?net (length (sent (st ?p))) (length (sent (st (snd (session ?net [] ?rounds ?p)))))"
    unfolding r by code_simp
  have w: "no_terminate False (events_of ?rounds)" by code_simp
  have c: "stop_writing (st ?p) \<and> id_x11 (st ?p) \<noteq> 0 \<longrightarrow> result_alloc (st ?p)"
    by (simp add: init_process_def)
  from send_failure_closes_session [OF prod.collapse [symmetric] f w c]
  have "\<not> connectionok (st (snd (session ?net [] ?rounds ?p)))" by blast
  with f r w show ?thesis by blast
qed

end
